theory Spec2Isabelle
  imports Main "HOL-Library.Word" "HOL-Library.Multiset"
begin

section \<open>The matrix and the per-thread result vectors\<close>

text \<open>
  \<^verbatim>\<open>constexpr int rows = 1000; constexpr int cols = 100;\<close>
  Both constants are only used as loop bounds and array sizes, so they are naturals here;
  a row index is compared with \<open>int rows\<close>, since the loop variables and the shared
  counter are C \<^verbatim>\<open>int\<close>s that are decremented and tested against zero.
\<close>

definition rows :: nat where
  "rows = 1000"

definition cols :: nat where
  "cols = 100"

text \<open>
  \<^verbatim>\<open>int work[rows][cols]\<close>: a matrix of 32-bit signed integers, read-only once
  \<^verbatim>\<open>main\<close> has filled it. It is a total function of the row and column index; that
  every access of the workers stays inside \<open>[0, rows)\<close> is proved below, not assumed.
\<close>

type_synonym matrix = "int \<Rightarrow> nat \<Rightarrow> 32 word"

text \<open>
  \<^verbatim>\<open>srand(0x1234); for i, for j: work[i][j] = rand();\<close>
  The generator belongs to the C library. \<open>rnd k\<close> is the value of the \<open>k\<close>-th call of
  \<^verbatim>\<open>rand()\<close> after seeding; the loops call it in row-major order.
\<close>

definition fill_work :: "(nat \<Rightarrow> 32 word) \<Rightarrow> matrix" where
  "fill_work rnd = (\<lambda>i j. rnd (nat i * cols + j))"

text \<open>
  \<^verbatim>\<open>std::vector<int> tcount; std::vector<uint64_t> sum;\<close>
  The two global vectors, indexed by thread id (\<open>sum\<close> is a constant of HOL, hence the
  suffix).
\<close>

record table =
  tcount :: "int list"
  sum_vec :: "64 word list"

text \<open>
  The inner loop shared by both workers:
  \<^verbatim>\<open>for (int j = 0; j < cols; ++j) sum[tid] += (uint64_t) work[i][j];\<close>
  The cast of a signed 32-bit value to \<^verbatim>\<open>uint64_t\<close> sign-extends, which is \<open>scast\<close>;
  the addition wraps modulo \<open>2 ^ 64\<close>.
\<close>

definition sum_row :: "matrix \<Rightarrow> int \<Rightarrow> 64 word \<Rightarrow> 64 word" where
  "sum_row work i acc = fold (\<lambda>j a. a + scast (work i j)) [0..<cols] acc"

text \<open>
  One pass of a worker's loop body over row \<open>i\<close>: the inner loop into \<open>sum[tid]\<close>,
  then \<^verbatim>\<open>++tcount[tid]\<close>. Only slot \<open>tid\<close> of either vector is touched.
\<close>

definition account_row :: "matrix \<Rightarrow> nat \<Rightarrow> int \<Rightarrow> 'a table_scheme \<Rightarrow> 'a table_scheme" where
  "account_row work tid i tb =
     tb\<lparr>sum_vec := (sum_vec tb)[tid := sum_row work i (sum_vec tb ! tid)],
        tcount := (tcount tb)[tid := tcount tb ! tid + 1]\<rparr>"

text \<open>
  What an observer sees of a run: a row handed out by the shared counter, the counter
  found exhausted, a row summed into a worker's slot, a static worker leaving its loop.
  Each event carries the thread id.
\<close>

datatype event =
    Claimed nat int
  | Exhausted nat
  | Summed nat int
  | Left nat

section \<open>Interleaved execution\<close>

text \<open>
  The threads run concurrently. A schedule is the order in which the threads take their
  steps; \<open>exec\<close> runs a schedule and returns the events in order with the final state,
  or \<open>None\<close> when a scheduled thread has no step to take (it has returned, or it does
  not exist). Every statement about "any run" quantifies over all schedules.
\<close>

fun exec :: "(nat \<Rightarrow> 's \<Rightarrow> (event \<times> 's) option) \<Rightarrow> nat list \<Rightarrow> 's \<Rightarrow> (event list \<times> 's) option" where
  "exec step [] s = Some ([], s)"
| "exec step (t # ts) s =
     (case step t s of
        None \<Rightarrow> None
      | Some (e, s') \<Rightarrow>
          (case exec step ts s' of
             None \<Rightarrow> None
           | Some (es, s'') \<Rightarrow> Some (e # es, s'')))"

text \<open>The rows summed, with the thread that summed each, in the order of the run.\<close>

fun summed :: "event list \<Rightarrow> (nat \<times> int) list" where
  "summed [] = []"
| "summed (Summed t r # es) = (t, r) # summed es"
| "summed (e # es) = summed es"

text \<open>The rows handed out by the shared counter, in the order the lock was taken.\<close>

fun claimed :: "event list \<Rightarrow> (nat \<times> int) list" where
  "claimed [] = []"
| "claimed (Claimed t r # es) = (t, r) # claimed es"
| "claimed (e # es) = claimed es"

text \<open>The rows of one thread, in order.\<close>

definition rows_of :: "nat \<Rightarrow> (nat \<times> int) list \<Rightarrow> int list" where
  "rows_of t ps = map snd (filter (\<lambda>p. fst p = t) ps)"

section \<open>Static load balancing\<close>

text \<open>
  \<^verbatim>\<open>i += num_threads\<close> on a C \<^verbatim>\<open>int\<close>: the value is reduced to the 32-bit two's
  complement range.
\<close>

definition wrap_int :: "int \<Rightarrow> int" where
  "wrap_int x = (x + 2 ^ 31) mod 2 ^ 32 - 2 ^ 31"

text \<open>
  A static worker is either at its loop test with loop variable \<open>i\<close>, or it has left
  the loop and returned.
\<close>

datatype slocal = SLoop int | SEnd

record sstate = table +
  locs :: "slocal list"

text \<open>
  \<^verbatim>\<open>
  int i = tid;
  while (i < rows) {
      for (int j = 0; j < cols; ++j) sum[tid] += (uint64_t) work[i][j];
      ++tcount[tid];
      i += num_threads;
  }
  \<close>
  One step of thread \<open>tid\<close> is one evaluation of the loop test followed by the loop body
  or by the exit. The body writes only slot \<open>tid\<close>.
\<close>

definition sum_static :: "matrix \<Rightarrow> int \<Rightarrow> nat \<Rightarrow> sstate \<Rightarrow> (event \<times> sstate) option" where
  "sum_static work num_threads tid s =
     (if tid < length (locs s) then
        (case locs s ! tid of
           SLoop i \<Rightarrow>
             if i < int rows
             then Some (Summed tid i,
                    (account_row work tid i s)
                      \<lparr>locs := (locs s)[tid := SLoop (wrap_int (i + num_threads))]\<rparr>)
             else Some (Left tid, s\<lparr>locs := (locs s)[tid := SEnd]\<rparr>)
         | SEnd \<Rightarrow> None)
      else None)"

text \<open>
  \<^verbatim>\<open>tcount.resize(n_threads, 0); sum.resize(n_threads, 0);\<close> and then
  \<^verbatim>\<open>new std::thread(sum_static, i, n_threads)\<close> for \<open>i = 0 .. n_threads - 1\<close>:
  thread \<open>i\<close> starts with its loop variable equal to its id.
\<close>

definition static_init :: "nat \<Rightarrow> sstate" where
  "static_init n = \<lparr>tcount = replicate n 0, sum_vec = replicate n 0,
                    locs = map (\<lambda>t. SLoop (int t)) [0..<n]\<rparr>"

definition static_run :: "matrix \<Rightarrow> nat \<Rightarrow> nat list \<Rightarrow> (event list \<times> sstate) option" where
  "static_run work n sched = exec (sum_static work (int n)) sched (static_init n)"

definition static_done :: "sstate \<Rightarrow> bool" where
  "static_done s = list_all (\<lambda>l. l = SEnd) (locs s)"

section \<open>Dynamic load balancing\<close>

text \<open>
  The critical section between \<^verbatim>\<open>counter_lock.lock()\<close> and
  \<^verbatim>\<open>counter_lock.unlock()\<close>:
  \<^verbatim>\<open>
  if (counter > 0) --counter; else done = true;
  count_copy = counter;
  \<close>
  It takes the counter and returns the new counter, \<open>done\<close> and \<open>count_copy\<close>.
\<close>

definition claim :: "int \<Rightarrow> int \<times> bool \<times> int" where
  "claim counter =
     (let (counter', done) = (if counter > 0 then (counter - 1, False) else (counter, True))
      in (counter', done, counter'))"

text \<open>
  A dynamic worker is about to take the lock, or it is outside the lock with a row in
  \<open>count_copy\<close> and \<open>done = false\<close>, or it has returned.
\<close>

datatype dlocal = DLock | DRow int | DEnd

record dstate = table +
  counter :: int
  dlocs :: "dlocal list"

text \<open>
  One step of thread \<open>tid\<close> in \<^verbatim>\<open>sum_dynamic\<close>: either the whole critical section
  (the mutex makes it atomic), or the summation of the row it holds, which is outside
  the lock and writes only slot \<open>tid\<close>. When the critical section sets \<open>done\<close>, the
  \<^verbatim>\<open>if (!done)\<close> is skipped and the \<^verbatim>\<open>while (!done)\<close> test ends the loop.
\<close>

definition sum_dynamic :: "matrix \<Rightarrow> nat \<Rightarrow> dstate \<Rightarrow> (event \<times> dstate) option" where
  "sum_dynamic work tid s =
     (if tid < length (dlocs s) then
        (case dlocs s ! tid of
           DLock \<Rightarrow>
             (case claim (counter s) of
                (c', done, count_copy) \<Rightarrow>
                  if \<not> done
                  then Some (Claimed tid count_copy,
                         s\<lparr>counter := c', dlocs := (dlocs s)[tid := DRow count_copy]\<rparr>)
                  else Some (Exhausted tid,
                         s\<lparr>counter := c', dlocs := (dlocs s)[tid := DEnd]\<rparr>))
         | DRow r \<Rightarrow>
             Some (Summed tid r, (account_row work tid r s)\<lparr>dlocs := (dlocs s)[tid := DLock]\<rparr>)
         | DEnd \<Rightarrow> None)
      else None)"

text \<open>\<^verbatim>\<open>volatile int counter = rows;\<close> and the vectors resized to \<open>n\<close> zeros.\<close>

definition dynamic_init :: "nat \<Rightarrow> dstate" where
  "dynamic_init n = \<lparr>tcount = replicate n 0, sum_vec = replicate n 0,
                     counter = int rows, dlocs = replicate n DLock\<rparr>"

definition dynamic_run :: "matrix \<Rightarrow> nat \<Rightarrow> nat list \<Rightarrow> (event list \<times> dstate) option" where
  "dynamic_run work n sched = exec (sum_dynamic work) sched (dynamic_init n)"

definition dynamic_done :: "dstate \<Rightarrow> bool" where
  "dynamic_done s = list_all (\<lambda>l. l = DEnd) (dlocs s)"

section \<open>The driver\<close>

text \<open>
  After the joins:
  \<^verbatim>\<open>
  int total_work = 0;
  for (unsigned int i = 0; i < n_threads; ++i) { ...; total_work += tcount.at(i); }
  uint64_t gross_sum = 0;
  for (uint64_t n : sum) gross_sum += n;
  \<close>
\<close>

definition total_work :: "nat \<Rightarrow> 'a table_scheme \<Rightarrow> int" where
  "total_work n tb = fold (\<lambda>i acc. acc + tcount tb ! i) [0..<n] 0"

definition gross_sum :: "'a table_scheme \<Rightarrow> 64 word" where
  "gross_sum tb = fold (\<lambda>n acc. acc + n) (sum_vec tb) 0"

section \<open>Command line\<close>

text \<open>
  \<^verbatim>\<open>getopt(argc, argv, "dt:")\<close> belongs to the C library; the loop of \<^verbatim>\<open>main\<close>
  sees the sequence of its results: \<open>'d'\<close>, \<open>'t'\<close> with \<^verbatim>\<open>optarg\<close>, or \<open>'?'\<close> for an
  option that is not recognised (or a \<open>-t\<close> that lacks its argument).
\<close>

datatype opt = Opt_d | Opt_t string | Opt_unknown

text \<open>
  \<^verbatim>\<open>atoi\<close> belongs to the C library. It is modelled as glibc has it on a platform
  with a 64-bit \<^verbatim>\<open>long\<close> and a 32-bit \<^verbatim>\<open>int\<close>, \<^verbatim>\<open>(int) strtol(s, NULL, 10)\<close>:
  leading white space is skipped, an optional sign is read, then the longest run of
  decimal digits, and with no digit the value is 0 (\<open>number_text\<close>);
  \<^verbatim>\<open>strtol\<close> returns that number, or \<^verbatim>\<open>LONG_MAX\<close> or \<^verbatim>\<open>LONG_MIN\<close> when the
  number lies outside the range of \<^verbatim>\<open>long\<close>; the cast to \<^verbatim>\<open>int\<close> keeps the low 32
  bits. (The C standard leaves \<^verbatim>\<open>atoi\<close> undefined for a number outside the range of
  \<^verbatim>\<open>int\<close>.)
\<close>

definition is_space :: "char \<Rightarrow> bool" where
  "is_space c = (c \<in> set [CHR '' '', CHR 0x09, CHR 0x0A, CHR 0x0B, CHR 0x0C, CHR 0x0D])"

definition is_digit :: "char \<Rightarrow> bool" where
  "is_digit c = (48 \<le> (of_char c :: nat) \<and> (of_char c :: nat) \<le> 57)"

fun digits_value :: "nat \<Rightarrow> string \<Rightarrow> nat" where
  "digits_value acc [] = acc"
| "digits_value acc (c # cs) =
     (if is_digit c then digits_value (10 * acc + (of_char c - 48)) cs else acc)"

definition number_text :: "string \<Rightarrow> int" where
  "number_text s =
     (case dropWhile is_space s of
        [] \<Rightarrow> 0
      | c # cs \<Rightarrow>
          if c = CHR ''-'' then - int (digits_value 0 cs)
          else if c = CHR ''+'' then int (digits_value 0 cs)
          else int (digits_value 0 (c # cs)))"

definition strtol :: "string \<Rightarrow> int" where
  "strtol s = max (- (2 ^ 63)) (min (2 ^ 63 - 1) (number_text s))"

definition atoi :: "string \<Rightarrow> int" where
  "atoi s = wrap_int (strtol s)"

text \<open>
  The variables the option loop of \<^verbatim>\<open>main\<close> sets, and what it writes to
  \<^verbatim>\<open>std::cerr\<close>. \<^verbatim>\<open>n_threads\<close> is an \<^verbatim>\<open>unsigned int\<close>.
\<close>

record settings =
  dflag :: int
  n_threads :: "32 word"
  cerr :: "string list"

definition usage :: "string list" where
  "usage = [''Usage: reduce [-d] [-t num]'',
            CHR 0x09 # ''-d Use dynamic load-balancing.'',
            CHR 0x09 # ''-t Specify the number of threads to use'']"

text \<open>
  The \<^verbatim>\<open>switch (opt)\<close>; \<open>hw\<close> is \<^verbatim>\<open>std::thread::hardware_concurrency()\<close>.
  \<^verbatim>\<open>
  case 'd': dflag = 1; break;
  case 't': n_threads = atoi(optarg);
            if (n_threads > hw) n_threads = hw;
            break;
  case '?': dflag = -1; std::cerr << usage; break;
  \<close>
\<close>

fun option_case :: "32 word \<Rightarrow> opt \<Rightarrow> settings \<Rightarrow> settings" where
  "option_case hw Opt_d st = st\<lparr>dflag := 1\<rparr>"
| "option_case hw (Opt_t optarg) st =
     (let n = (of_int (atoi optarg) :: 32 word)
      in st\<lparr>n_threads := (if n > hw then hw else n)\<rparr>)"
| "option_case hw Opt_unknown st = st\<lparr>dflag := - 1, cerr := cerr st @ usage\<rparr>"

text \<open>\<^verbatim>\<open>int dflag = 0; unsigned int n_threads = 2;\<close> and the \<^verbatim>\<open>while\<close> over \<^verbatim>\<open>getopt\<close>.\<close>

definition parse_options :: "32 word \<Rightarrow> opt list \<Rightarrow> settings" where
  "parse_options hw opts = fold (option_case hw) opts \<lparr>dflag = 0, n_threads = 2, cerr = []\<rparr>"

datatype mode = Static | Dynamic

text \<open>
  What \<^verbatim>\<open>main\<close> does after the option loop: under \<^verbatim>\<open>if (dflag != -1)\<close> it resizes
  the vectors and starts \<^verbatim>\<open>n_threads\<close> workers of the mode \<open>dflag\<close> selects, joins them
  and prints the totals; otherwise nothing. It returns 0 on every path.
\<close>

record outcome =
  launched :: "(mode \<times> nat) option"
  errors :: "string list"
  status :: int

definition main_control :: "32 word \<Rightarrow> opt list \<Rightarrow> outcome" where
  "main_control hw opts =
     (let st = parse_options hw opts
      in \<lparr>launched =
             (if dflag st \<noteq> - 1
              then (if dflag st = 1 then Some (Dynamic, unat (n_threads st))
                    else if dflag st = 0 then Some (Static, unat (n_threads st))
                    else None)
              else None),
          errors = cerr st,
          status = 0\<rparr>)"

section \<open>Definitions used to state and prove the properties\<close>

subsection \<open>Runs that have ended\<close>

text \<open>
  A run is complete when every worker has returned, which is when \<^verbatim>\<open>main\<close> gets past
  its joins. \<^verbatim>\<open>main\<close> reads \<open>tcount[i]\<close> right after joining thread \<open>i\<close> and \<open>sum\<close>
  after all joins; a slot no longer changes once its thread has returned, so both
  totals are functions of the final state.
\<close>

definition static_complete :: "matrix \<Rightarrow> nat \<Rightarrow> nat list \<Rightarrow> event list \<Rightarrow> sstate \<Rightarrow> bool" where
  "static_complete work n sched es s = (static_run work n sched = Some (es, s) \<and> static_done s)"

definition dynamic_complete :: "matrix \<Rightarrow> nat \<Rightarrow> nat list \<Rightarrow> event list \<Rightarrow> dstate \<Rightarrow> bool" where
  "dynamic_complete work n sched es s = (dynamic_run work n sched = Some (es, s) \<and> dynamic_done s)"

text \<open>The thread an event belongs to.\<close>

fun thread_of :: "event \<Rightarrow> nat" where
  "thread_of (Claimed t r) = t"
| "thread_of (Exhausted t) = t"
| "thread_of (Summed t r) = t"
| "thread_of (Left t) = t"

subsection \<open>Sums\<close>

text \<open>What one pass of the inner loop adds to a slot, in 64-bit arithmetic.\<close>

definition row_total :: "matrix \<Rightarrow> int \<Rightarrow> 64 word" where
  "row_total work i = sum_list (map (\<lambda>j. scast (work i j)) [0..<cols])"

text \<open>
  The reference sum: every element of the matrix, converted to 64 bits and added up row
  by row. It is written from the matrix alone and shares nothing with the workers' loops.
\<close>

definition reference_sum :: "matrix \<Rightarrow> 64 word" where
  "reference_sum work =
     sum_list (map (\<lambda>i. sum_list (map (\<lambda>j. scast (work (int i) j)) [0..<cols])) [0..<rows])"

text \<open>The sum of a row over the integers, with no modulus.\<close>

definition row_exact :: "matrix \<Rightarrow> int \<Rightarrow> int" where
  "row_exact work i = sum_list (map (\<lambda>j. sint (work i j)) [0..<cols])"

text \<open>The addends of the rows \<open>rs\<close>, one per matrix element, in the order they are added.\<close>

definition cells :: "matrix \<Rightarrow> int list \<Rightarrow> 64 word list" where
  "cells work rs = concat (map (\<lambda>i. map (\<lambda>j. scast (work i j)) [0..<cols]) rs)"

subsection \<open>The static assignment as a function of thread id and thread count\<close>

text \<open>
  The number of indices \<open>tid, tid + n, tid + 2n, ...\<close> below \<open>rows\<close>, and those
  indices in order.
\<close>

definition static_count :: "nat \<Rightarrow> nat \<Rightarrow> nat" where
  "static_count n tid = (rows + n - 1 - tid) div n"

definition static_rows :: "nat \<Rightarrow> nat \<Rightarrow> int list" where
  "static_rows n tid = map (\<lambda>j. int tid + int j * int n) [0..<static_count n tid]"

text \<open>
  Two particular schedules. In the first, worker 0 takes and sums every row before any
  other worker runs, then each worker finds the counter exhausted. In the second, each
  static worker in turn runs its loop to the end.
\<close>

definition sequential_dynamic :: "nat \<Rightarrow> nat list" where
  "sequential_dynamic n = replicate (2 * rows) 0 @ [0..<n]"

definition sequential_static :: "nat \<Rightarrow> nat list" where
  "sequential_static n = concat (map (\<lambda>t. replicate (Suc (static_count n t)) t) [0..<n])"

subsection \<open>Invariants of the result vectors\<close>

text \<open>
  Each slot holds the count and the 64-bit sum of the rows its thread has summed; the
  vectors add up to the count and the sum of all rows summed so far.
\<close>

definition slots_ok :: "matrix \<Rightarrow> event list \<Rightarrow> 'a table_scheme \<Rightarrow> bool" where
  "slots_ok work es tb =
     (\<forall>t < length (tcount tb).
        tcount tb ! t = int (length (rows_of t (summed es))) \<and>
        sum_vec tb ! t = sum_list (map (row_total work) (rows_of t (summed es))))"

definition totals_ok :: "matrix \<Rightarrow> event list \<Rightarrow> 'a table_scheme \<Rightarrow> bool" where
  "totals_ok work es tb =
     (sum_list (tcount tb) = int (length (summed es)) \<and>
      sum_list (sum_vec tb) = sum_list (map (row_total work) (map snd (summed es))))"

subsection \<open>Invariants of the dynamic workers\<close>

definition dyn_shape :: "nat \<Rightarrow> dstate \<Rightarrow> bool" where
  "dyn_shape n s = (length (dlocs s) = n \<and> length (tcount s) = n \<and> length (sum_vec s) = n)"

text \<open>The counter is \<open>rows\<close> minus the number of rows handed out, which count down.\<close>

definition dyn_counter :: "event list \<Rightarrow> dstate \<Rightarrow> bool" where
  "dyn_counter es s =
     (0 \<le> counter s \<and> counter s = int rows - int (length (claimed es)) \<and>
      map snd (claimed es) = map (\<lambda>k. int rows - 1 - int k) [0..<length (claimed es)])"

text \<open>A worker has returned only if it found the counter at zero.\<close>

definition dyn_ended :: "dstate \<Rightarrow> bool" where
  "dyn_ended s = ((\<exists>t < length (dlocs s). dlocs s ! t = DEnd) \<longrightarrow> counter s = 0)"

text \<open>Whether the pair (thread, row) is a row handed out and not yet summed.\<close>

definition dyn_held :: "dstate \<Rightarrow> nat \<times> int \<Rightarrow> nat" where
  "dyn_held s p = (if fst p < length (dlocs s) \<and> dlocs s ! fst p = DRow (snd p) then 1 else 0)"

text \<open>
  Steps a dynamic worker still owes in its current position (used with the counter to
  bound the length of a run), and whether it holds a row.
\<close>

fun dweight :: "dlocal \<Rightarrow> int" where
  "dweight DLock = 1"
| "dweight (DRow r) = 2"
| "dweight DEnd = 0"

fun dheld :: "dlocal \<Rightarrow> int" where
  "dheld DLock = 0"
| "dheld (DRow r) = 1"
| "dheld DEnd = 0"

subsection \<open>Invariants of the static workers\<close>

definition static_shape :: "nat \<Rightarrow> sstate \<Rightarrow> bool" where
  "static_shape n s = (length (locs s) = n \<and> length (tcount s) = n \<and> length (sum_vec s) = n)"

text \<open>
  After \<open>k\<close> passes thread \<open>t\<close> has summed \<open>t, t + n, ..., t + (k - 1) n\<close>, all below
  \<open>rows\<close>, and its loop variable is \<open>t + k n\<close>; once it has returned, that value is
  at least \<open>rows\<close>.
\<close>

definition static_at :: "nat \<Rightarrow> nat \<Rightarrow> event list \<Rightarrow> sstate \<Rightarrow> nat \<Rightarrow> bool" where
  "static_at n t es s k =
     (rows_of t (summed es) = map (\<lambda>j. int t + int j * int n) [0..<k] \<and>
      (\<forall>j<k. int t + int j * int n < int rows) \<and>
      (locs s ! t = SLoop (int t + int k * int n) \<or>
       (locs s ! t = SEnd \<and> int rows \<le> int t + int k * int n)))"

definition static_inv :: "nat \<Rightarrow> event list \<Rightarrow> sstate \<Rightarrow> bool" where
  "static_inv n es s =
     (static_shape n s \<and> (\<forall>t<n. \<exists>k. static_at n t es s k) \<and> (\<forall>p\<in>set (summed es). fst p < n))"

text \<open>One for a static worker that has returned.\<close>

fun sweight :: "slocal \<Rightarrow> int" where
  "sweight (SLoop i) = 0"
| "sweight SEnd = 1"

subsection \<open>Arguments of the thread option\<close>


section \<open>Schedules\<close>

text \<open>An invariant of every run is proved by induction over the steps taken: it holds at the start and every step of every thread keeps it.\<close>

lemma exec_prefix_induct:
  assumes "exec step sched s1 = Some (es, s)"
    and "P pre s1"
    and "\<And>es s t e s'. P es s \<Longrightarrow> step t s = Some (e, s') \<Longrightarrow> P (es @ [e]) s'"
  shows "P (pre @ es) s"
  using assms(1,2)
proof (induction sched arbitrary: pre s1 es)
  case Nil
  then show ?case by simp
next
  case (Cons t ts)
  from Cons.prems(1) obtain e s' es' where
    st: "step t s1 = Some (e, s')" and ex: "exec step ts s' = Some (es', s)" and es: "es = e # es'"
    by (auto split: option.splits prod.splits)
  have "P (pre @ [e]) s'" using Cons.prems(2) st by (rule assms(3))
  from Cons.IH[OF ex this] show ?case by (simp add: es)
qed

lemma exec_induct [consumes 1, case_names init step]:
  assumes "exec step sched s0 = Some (es, s)"
    and "P [] s0"
    and "\<And>es s t e s'. P es s \<Longrightarrow> step t s = Some (e, s') \<Longrightarrow> P (es @ [e]) s'"
  shows "P es s"
  using exec_prefix_induct[of step sched s0 es s P "[]", OF assms(1) assms(2) assms(3)] by simp

lemma exec_length: "exec step sched s0 = Some (es, s) \<Longrightarrow> length es = length sched"
  by (induction sched arbitrary: s0 es) (auto split: option.splits prod.splits)

lemma exec_append:
  "exec step (xs @ ys) s0 =
     (case exec step xs s0 of None \<Rightarrow> None
      | Some (es, s1) \<Rightarrow> (case exec step ys s1 of None \<Rightarrow> None | Some (fs, s2) \<Rightarrow> Some (es @ fs, s2)))"
  by (induction xs arbitrary: s0) (auto split: option.splits prod.splits)

lemma exec_snoc:
  "exec step sched s0 = Some (es, s) \<Longrightarrow> step t s = Some (e, s') \<Longrightarrow>
   exec step (sched @ [t]) s0 = Some (es @ [e], s')"
  by (simp add: exec_append)

text \<open>When every run has at most B steps and a state that is not final always has a step, every run can be continued to a final state: no schedule makes the workers run forever or get stuck.\<close>

lemma extend_to_complete:
  assumes bound: "\<And>sched es s. exec step sched s0 = Some (es, s) \<Longrightarrow> length sched \<le> B"
    and progress: "\<And>sched es s. exec step sched s0 = Some (es, s) \<Longrightarrow> \<not> fin s \<Longrightarrow>
                     \<exists>t e s'. step t s = Some (e, s')"
    and run: "exec step sched s0 = Some (es, s)"
  shows "\<exists>more es' s'. exec step (sched @ more) s0 = Some (es', s') \<and> fin s'"
  using run
proof (induction "B - length sched" arbitrary: sched es s rule: less_induct)
  case less
  show ?case
  proof (cases "fin s")
    case True
    with less.prems have "exec step (sched @ []) s0 = Some (es, s) \<and> fin s" by simp
    then show ?thesis by blast
  next
    case False
    from progress[OF less.prems False] obtain t e s1 where st: "step t s = Some (e, s1)" by blast
    have ex: "exec step (sched @ [t]) s0 = Some (es @ [e], s1)"
      using less.prems st by (rule exec_snoc)
    from bound[OF ex] have "B - length (sched @ [t]) < B - length sched" by simp
    from less.hyps[OF this ex] obtain more es' s' where
      "exec step ((sched @ [t]) @ more) s0 = Some (es', s')" "fin s'" by blast
    then have "exec step (sched @ (t # more)) s0 = Some (es', s') \<and> fin s'" by simp
    then show ?thesis by blast
  qed
qed

section \<open>Events, folds and sums\<close>

lemma summed_append: "summed (es @ fs) = summed es @ summed fs"
  by (induction es rule: summed.induct) auto

lemma claimed_append: "claimed (es @ fs) = claimed es @ claimed fs"
  by (induction es rule: claimed.induct) auto

lemma rows_of_append: "rows_of t (ps @ qs) = rows_of t ps @ rows_of t qs"
  by (simp add: rows_of_def)

lemma rows_of_single: "rows_of t [(u, r)] = (if u = t then [r] else [])"
  by (simp add: rows_of_def)

lemma rows_of_length: "length (rows_of t ps) \<le> length ps"
  by (simp add: rows_of_def)

lemma in_rows_of: "r \<in> set (rows_of t ps) \<longleftrightarrow> (t, r) \<in> set ps"
  by (force simp: rows_of_def)

lemma distinct_by_fst:
  "(\<And>t. distinct (filter (\<lambda>p. fst p = t) ps)) \<Longrightarrow> distinct ps"
proof (induction ps)
  case Nil
  then show ?case by simp
next
  case (Cons p ps)
  have "distinct (filter (\<lambda>q. fst q = t) ps)" for t
    using Cons.prems[of t] by (simp split: if_splits)
  then have "distinct ps" by (rule Cons.IH)
  moreover have "p \<notin> set ps"
    using Cons.prems[of "fst p"] by simp
  ultimately show ?case by simp
qed

lemma fold_add_sum_list:
  fixes a :: "'a::comm_monoid_add"
  shows "fold (\<lambda>x acc. acc + f x) xs a = a + sum_list (map f xs)"
  by (induction xs arbitrary: a) (simp_all add: add.assoc)

lemma sum_row_total: "sum_row work i acc = acc + row_total work i"
  by (simp add: sum_row_def row_total_def fold_add_sum_list)

lemma fold_sum_row: "fold (sum_row work) rs acc = acc + sum_list (map (row_total work) rs)"
  by (induction rs arbitrary: acc) (simp_all add: sum_row_total add.assoc)

lemma gross_sum_sum_list: "gross_sum tb = sum_list (sum_vec tb)"
  using fold_add_sum_list[of "\<lambda>x. x" "sum_vec tb" "0::64 word"] by (simp add: gross_sum_def)

lemma total_work_sum_list: "length (tcount tb) = n \<Longrightarrow> total_work n tb = sum_list (tcount tb)"
proof -
  assume n: "length (tcount tb) = n"
  have "fold (\<lambda>i acc. acc + tcount tb ! i) [0..<n] 0 = 0 + sum_list (map (\<lambda>i. tcount tb ! i) [0..<n])"
    by (rule fold_add_sum_list)
  also have "map (\<lambda>i. tcount tb ! i) [0..<n] = tcount tb"
    using n map_nth[of "tcount tb"] by simp
  finally show ?thesis by (simp add: total_work_def)
qed

lemma reference_sum_sum_list:
  "reference_sum work = sum_list (map (row_total work) (map int [0..<rows]))"
  by (simp add: reference_sum_def row_total_def comp_def)

lemma sum_list_update_add:
  fixes xs :: "'a::ab_group_add list"
  shows "t < length xs \<Longrightarrow> sum_list (xs[t := xs ! t + v]) = sum_list xs + v"
proof (induction xs arbitrary: t)
  case Nil
  then show ?case by simp
next
  case (Cons x xs)
  then show ?case by (cases t) (simp_all add: add.assoc add.commute add.left_commute)
qed

lemma sum_list_update_int:
  fixes xs :: "int list"
  shows "t < length xs \<Longrightarrow> sum_list (xs[t := v]) = sum_list xs + v - xs ! t"
  using sum_list_update_add[of t xs "v - xs ! t"] by simp

lemma sum_list_map_mset:
  fixes f :: "'a \<Rightarrow> 'b::comm_monoid_add"
  shows "mset xs = mset ys \<Longrightarrow> sum_list (map f xs) = sum_list (map f ys)"
proof -
  assume "mset xs = mset ys"
  then have "mset (map f xs) = mset (map f ys)" by simp
  then have "sum_mset (mset (map f xs)) = sum_mset (mset (map f ys))" by (rule arg_cong)
  then show ?thesis by (simp only: sum_mset_sum_list)
qed

lemma slots_ok_account:
  assumes "slots_ok work es tb" "length (sum_vec tb) = length (tcount tb)" "t < length (tcount tb)"
  shows "slots_ok work (es @ [Summed t r]) (account_row work t r tb)"
  using assms
  by (auto simp: slots_ok_def account_row_def summed_append rows_of_append rows_of_single
        nth_list_update sum_row_total)

lemma slots_ok_other:
  assumes "slots_ok work es tb" "summed [e] = []" "tcount tb' = tcount tb" "sum_vec tb' = sum_vec tb"
  shows "slots_ok work (es @ [e]) tb'"
  using assms by (simp add: slots_ok_def summed_append)

lemma totals_ok_account:
  assumes "totals_ok work es tb" "length (sum_vec tb) = length (tcount tb)" "t < length (tcount tb)"
  shows "totals_ok work (es @ [Summed t r]) (account_row work t r tb)"
  using assms
  by (simp add: totals_ok_def account_row_def summed_append sum_list_update_add sum_row_total)

lemma totals_ok_other:
  assumes "totals_ok work es tb" "summed [e] = []" "tcount tb' = tcount tb" "sum_vec tb' = sum_vec tb"
  shows "totals_ok work (es @ [e]) tb'"
  using assms by (simp add: totals_ok_def summed_append)

lemma totals_complete:
  assumes tot: "totals_ok work es tb" and len: "length (tcount tb) = n"
    and all: "mset (map snd (summed es)) = mset (map int [0..<rows])"
  shows "gross_sum tb = reference_sum work" and "total_work n tb = int rows"
proof -
  have "gross_sum tb = sum_list (map (row_total work) (map snd (summed es)))"
    using tot by (simp add: gross_sum_sum_list totals_ok_def)
  also have "\<dots> = sum_list (map (row_total work) (map int [0..<rows]))"
    using all by (rule sum_list_map_mset)
  finally show "gross_sum tb = reference_sum work" by (simp only: reference_sum_sum_list)
  have "length (map snd (summed es)) = length (map int [0..<rows])"
    using all by (rule mset_eq_length)
  then have "length (summed es) = rows" by simp
  then show "total_work n tb = int rows"
    using tot len by (simp add: total_work_sum_list totals_ok_def)
qed

section \<open>Runs of the dynamic workers\<close>

text \<open>The three steps a dynamic worker can take.\<close>

lemma sum_dynamic_cases [consumes 1, case_names take exhaust sum]:
  assumes "sum_dynamic work t s = Some (e, s')"
  obtains
    (take) "t < length (dlocs s)" "dlocs s ! t = DLock" "0 < counter s"
      "e = Claimed t (counter s - 1)"
      "s' = s\<lparr>counter := counter s - 1, dlocs := (dlocs s)[t := DRow (counter s - 1)]\<rparr>"
  | (exhaust) "t < length (dlocs s)" "dlocs s ! t = DLock" "counter s \<le> 0"
      "e = Exhausted t"
      "s' = s\<lparr>dlocs := (dlocs s)[t := DEnd]\<rparr>"
  | (sum) r where "t < length (dlocs s)" "dlocs s ! t = DRow r"
      "e = Summed t r"
      "s' = (account_row work t r s)\<lparr>dlocs := (dlocs s)[t := DLock]\<rparr>"
  using assms
  by (auto simp: sum_dynamic_def claim_def split: if_splits dlocal.splits)

lemma sum_dynamic_thread: "sum_dynamic work t s = Some (e, s') \<Longrightarrow> thread_of e = t"
  by (erule sum_dynamic_cases) simp_all

lemma dyn_shape_run:
  assumes "dynamic_run work n sched = Some (es, s)"
  shows "dyn_shape n s"
  using assms unfolding dynamic_run_def
proof (induction rule: exec_induct)
  case init
  show ?case by (simp add: dyn_shape_def dynamic_init_def)
next
  case (step es s t e s')
  from step(2) step(1) show ?case
    by (cases rule: sum_dynamic_cases) (simp_all add: dyn_shape_def account_row_def)
qed

lemma dyn_counter_run:
  assumes "dynamic_run work n sched = Some (es, s)"
  shows "dyn_counter es s"
  using assms unfolding dynamic_run_def
proof (induction rule: exec_induct)
  case init
  show ?case by (simp add: dyn_counter_def dynamic_init_def)
next
  case (step es s t e s')
  from step(2) step(1) show ?case
    by (cases rule: sum_dynamic_cases) (simp_all add: dyn_counter_def claimed_append account_row_def)
qed

lemma dyn_ended_run:
  assumes "dynamic_run work n sched = Some (es, s)"
  shows "dyn_ended s \<and> 0 \<le> counter s"
  using assms unfolding dynamic_run_def
proof (induction rule: exec_induct)
  case init
  show ?case by (auto simp: dyn_ended_def dynamic_init_def)
next
  case (step es s t e s')
  from step(2) step(1) show ?case
    by (cases rule: sum_dynamic_cases)
       (auto simp: dyn_ended_def account_row_def nth_list_update split: if_splits)
qed

lemma dyn_count_run:
  assumes "dynamic_run work n sched = Some (es, s)"
  shows "count_list (claimed es) (u, r) = count_list (summed es) (u, r) + dyn_held s (u, r)"
  using assms unfolding dynamic_run_def
proof (induction rule: exec_induct)
  case init
  show ?case by (simp add: dyn_held_def dynamic_init_def)
next
  case (step es s t e s')
  from step(2) step(1) show ?case
    by (cases rule: sum_dynamic_cases)
       (auto simp: dyn_held_def account_row_def nth_list_update claimed_append summed_append
             split: if_splits)
qed

lemma dyn_tables_run:
  assumes "dynamic_run work n sched = Some (es, s)"
  shows "dyn_shape n s \<and> slots_ok work es s \<and> totals_ok work es s"
  using assms unfolding dynamic_run_def
proof (induction rule: exec_induct)
  case init
  show ?case
    by (simp add: dyn_shape_def slots_ok_def totals_ok_def dynamic_init_def rows_of_def
          sum_list_replicate)
next
  case (step es s t e s')
  from step(2) step(1) show ?case
  proof (cases rule: sum_dynamic_cases)
    case take
    with step(1) show ?thesis
      by (auto simp: dyn_shape_def intro!: slots_ok_other totals_ok_other)
  next
    case exhaust
    with step(1) show ?thesis
      by (auto simp: dyn_shape_def intro!: slots_ok_other totals_ok_other)
  next
    case (sum r)
    with step(1) have a: "slots_ok work (es @ [Summed t r]) (account_row work t r s)"
      and b: "totals_ok work (es @ [Summed t r]) (account_row work t r s)"
      by (auto simp: dyn_shape_def intro!: slots_ok_account totals_ok_account)
    from a b sum step(1) show ?thesis
      by (simp add: dyn_shape_def slots_ok_def totals_ok_def account_row_def)
  qed
qed

lemma countdown_rev: "map (\<lambda>k. int m - 1 - int k) [0..<m] = rev (map int [0..<m])"
  by (rule nth_equalityI) (auto simp: rev_nth)

lemma countdown_decreasing: "sorted_wrt (>) (map (\<lambda>k. int m - 1 - int k) [0..<j])"
proof -
  have "sorted_wrt (\<lambda>x y. int m - 1 - int x > int m - 1 - int y) [0..<j]"
    by (rule sorted_wrt_mono_rel[OF _ sorted_wrt_upt]) simp
  then show ?thesis by (simp add: sorted_wrt_map)
qed

lemma dyn_done_no_row:
  "dynamic_done s \<Longrightarrow> dyn_held s p = 0"
  by (auto simp: dynamic_done_def dyn_held_def list_all_length)

lemma dyn_complete:
  assumes run: "dynamic_run work n sched = Some (es, s)" and fin: "dynamic_done s" and n: "0 < n"
  shows "counter s = 0"
    and "map snd (claimed es) = rev (map int [0..<rows])"
    and "mset (summed es) = mset (claimed es)"
proof -
  have sh: "dyn_shape n s" using run by (rule dyn_shape_run)
  have "dlocs s ! 0 = DEnd" "0 < length (dlocs s)"
    using fin sh n by (auto simp: dynamic_done_def dyn_shape_def list_all_length)
  then have "\<exists>t < length (dlocs s). dlocs s ! t = DEnd" by blast
  with dyn_ended_run[OF run] show c: "counter s = 0" by (simp add: dyn_ended_def)
  from dyn_counter_run[OF run] c have len: "length (claimed es) = rows"
    and m: "map snd (claimed es) = map (\<lambda>k. int rows - 1 - int k) [0..<length (claimed es)]"
    by (simp_all add: dyn_counter_def)
  from m len show "map snd (claimed es) = rev (map int [0..<rows])"
    by (simp add: countdown_rev)
  show "mset (summed es) = mset (claimed es)"
  proof (rule multiset_eqI)
    fix p :: "nat \<times> int"
    obtain u r where p: "p = (u, r)" by (cases p)
    show "count (mset (summed es)) p = count (mset (claimed es)) p"
      using dyn_count_run[OF run, of u r] dyn_done_no_row[OF fin, of "(u, r)"]
      by (simp add: p count_mset)
  qed
qed

lemma dyn_complete_rows:
  assumes run: "dynamic_run work n sched = Some (es, s)" and fin: "dynamic_done s" and n: "0 < n"
  shows "mset (map snd (summed es)) = mset (map int [0..<rows])"
proof -
  have "mset (map snd (summed es)) = image_mset snd (mset (summed es))" by simp
  also have "\<dots> = image_mset snd (mset (claimed es))"
    by (simp only: dyn_complete(3)[OF run fin n])
  also have "\<dots> = mset (map snd (claimed es))" by simp
  also have "\<dots> = mset (map int [0..<rows])"
    by (simp only: dyn_complete(2)[OF run fin n] mset_rev)
  finally show ?thesis .
qed

lemma dyn_correct:
  assumes run: "dynamic_run work n sched = Some (es, s)" and fin: "dynamic_done s" and n: "0 < n"
  shows "gross_sum s = reference_sum work" and "total_work n s = int rows"
proof -
  from dyn_tables_run[OF run] have tot: "totals_ok work es s" and len: "length (tcount s) = n"
    by (simp_all add: dyn_shape_def)
  from totals_complete[OF tot len dyn_complete_rows[OF run fin n]]
  show "gross_sum s = reference_sum work" and "total_work n s = int rows" by simp_all
qed

text \<open>Every step lowers twice the counter plus the steps the workers still owe by one, so a run has at most 2 * rows + n steps.\<close>

lemma dyn_steps_run:
  assumes "dynamic_run work n sched = Some (es, s)"
  shows "int (length es) + 2 * counter s + sum_list (map dweight (dlocs s)) = 2 * int rows + int n"
  using assms unfolding dynamic_run_def
proof (induction rule: exec_induct)
  case init
  show ?case by (simp add: dynamic_init_def sum_list_replicate)
next
  case (step es s t e s')
  from step(2) step(1) show ?case
    by (cases rule: sum_dynamic_cases)
       (simp_all add: account_row_def map_update sum_list_update_int)
qed

lemma dweight_nonneg: "0 \<le> sum_list (map dweight ls)"
proof (induction ls)
  case Nil
  then show ?case by simp
next
  case (Cons l ls)
  then show ?case by (cases l) simp_all
qed

lemma dyn_bound:
  assumes run: "dynamic_run work n sched = Some (es, s)"
  shows "length sched \<le> 2 * rows + n"
proof -
  have "length es = length sched" using run unfolding dynamic_run_def by (rule exec_length)
  moreover have "0 \<le> counter s" using dyn_ended_run[OF run] by simp
  ultimately show ?thesis
    using dyn_steps_run[OF run] dweight_nonneg[of "dlocs s"] by linarith
qed

lemma dyn_progress:
  assumes run: "dynamic_run work n sched = Some (es, s)" and nf: "\<not> dynamic_done s"
  shows "\<exists>t e s'. sum_dynamic work t s = Some (e, s')"
proof -
  from nf obtain t where t: "t < length (dlocs s)" "dlocs s ! t \<noteq> DEnd"
    by (auto simp: dynamic_done_def list_all_length)
  then have "\<exists>e s'. sum_dynamic work t s = Some (e, s')"
    by (cases "dlocs s ! t") (simp_all add: sum_dynamic_def claim_def)
  then show ?thesis by blast
qed

lemma dyn_extend:
  assumes run: "dynamic_run work n sched = Some (es, s)"
  shows "\<exists>more es' s'. dynamic_run work n (sched @ more) = Some (es', s') \<and> dynamic_done s'"
  using run unfolding dynamic_run_def
  by (rule extend_to_complete[where B = "2 * rows + n", rotated 2])
     (auto intro: dyn_bound dyn_progress simp: dynamic_run_def[symmetric])

lemma dyn_complete_exists:
  "\<exists>sched es s. dynamic_run work n sched = Some (es, s) \<and> dynamic_done s"
proof -
  have "dynamic_run work n [] = Some ([], dynamic_init n)" by (simp add: dynamic_run_def)
  from dyn_extend[OF this] show ?thesis by auto
qed

lemma dheld_nonneg: "0 \<le> sum_list (map dheld ls)"
proof (induction ls)
  case Nil
  then show ?case by simp
next
  case (Cons l ls)
  then show ?case by (cases l) simp_all
qed

lemma dyn_summed_run:
  assumes "dynamic_run work n sched = Some (es, s)"
  shows "int (length (claimed es)) = int (length (summed es)) + sum_list (map dheld (dlocs s))"
  using assms unfolding dynamic_run_def
proof (induction rule: exec_induct)
  case init
  show ?case by (simp add: dynamic_init_def sum_list_replicate)
next
  case (step es s t e s')
  from step(2) step(1) show ?case
    by (cases rule: sum_dynamic_cases)
       (simp_all add: account_row_def map_update sum_list_update_int summed_append claimed_append)
qed

lemma dyn_partial:
  assumes run: "dynamic_run work n sched = Some (es, s)"
  shows "length (summed es) \<le> rows"
proof -
  from dyn_counter_run[OF run] have "int (length (claimed es)) \<le> int rows"
    by (simp add: dyn_counter_def)
  with dyn_summed_run[OF run] dheld_nonneg[of "dlocs s"] show ?thesis by linarith
qed

lemma dyn_exhausted_run:
  assumes "dynamic_run work n sched = Some (es, s)"
  shows "(\<forall>u. Exhausted u \<in> set es \<longrightarrow> u < length (dlocs s) \<and> dlocs s ! u = DEnd) \<and>
         (\<forall>a b u. es = a @ Exhausted u # b \<longrightarrow> (\<forall>e\<in>set b. thread_of e \<noteq> u))"
  using assms unfolding dynamic_run_def
proof (induction rule: exec_induct)
  case init
  show ?case by simp
next
  case (step es s t e s')
  from step(1) have q: "\<And>u. Exhausted u \<in> set es \<Longrightarrow> u < length (dlocs s) \<and> dlocs s ! u = DEnd"
    and r: "\<And>a b u. es = a @ Exhausted u # b \<Longrightarrow> \<forall>e\<in>set b. thread_of e \<noteq> u"
    by blast+
  have te: "thread_of e = t" using step(2) by (rule sum_dynamic_thread)
  have live: "dlocs s ! t \<noteq> DEnd" using step(2) by (auto simp: sum_dynamic_def split: if_splits)
  have q': "u < length (dlocs s') \<and> dlocs s' ! u = DEnd" if "Exhausted u \<in> set (es @ [e])" for u
  proof (cases "Exhausted u \<in> set es")
    case True
    from q[OF True] live have ut: "u \<noteq> t" by auto
    from step(2) q[OF True] ut show ?thesis
      by (cases rule: sum_dynamic_cases) (simp_all add: account_row_def)
  next
    case False
    with that have e: "e = Exhausted u" by simp
    from step(2) show ?thesis
      by (cases rule: sum_dynamic_cases) (simp_all add: e)
  qed
  have r': "\<forall>x\<in>set b. thread_of x \<noteq> u" if "es @ [e] = a @ Exhausted u # b" for a b u
  proof (cases b rule: rev_cases)
    case Nil
    then show ?thesis by simp
  next
    case (snoc b' x)
    with that have es: "es = a @ Exhausted u # b'" and x: "x = e" by simp_all
    from es have "Exhausted u \<in> set es" by simp
    from q[OF this] live have "u \<noteq> t" by auto
    with r[OF es] te snoc x show ?thesis by simp
  qed
  from q' r' show ?case by blast
qed

lemma dyn_rows_in_range:
  assumes run: "dynamic_run work n sched = Some (es, s)" and p: "(t, r) \<in> set (summed es)"
  shows "0 \<le> r \<and> r < int rows"
proof -
  from p have "count_list (summed es) (t, r) \<noteq> 0" by (simp only: count_list_0_iff) simp
  with dyn_count_run[OF run, of t r] have "count_list (claimed es) (t, r) \<noteq> 0" by simp
  then have "(t, r) \<in> set (claimed es)" by (simp only: count_list_0_iff) simp
  then have "r \<in> set (map snd (claimed es))" by force
  moreover from dyn_counter_run[OF run]
  have "map snd (claimed es) = map (\<lambda>k. int rows - 1 - int k) [0..<length (claimed es)]"
    and "0 \<le> int rows - int (length (claimed es))"
    by (simp_all add: dyn_counter_def)
  ultimately show ?thesis by auto
qed

text \<open>The schedule in which worker 0 takes every row is a complete run.\<close>

lemma replicate_update_same: "(replicate n x)[i := x] = replicate n x"
proof (cases "i < n")
  case True
  have "(replicate n x)[i := replicate n x ! i] = replicate n x" by (rule list_update_id)
  with True show ?thesis by simp
next
  case False
  then show ?thesis by (simp add: list_update_beyond)
qed

lemma dyn_drain:
  assumes "dlocs s = replicate n DLock" "0 < n" "counter s = int k"
  shows "\<exists>es s'. exec (sum_dynamic work) (replicate (2 * k) 0) s = Some (es, s') \<and>
           dlocs s' = replicate n DLock \<and> counter s' = 0"
  using assms
proof (induction k arbitrary: s)
  case 0
  then show ?case by simp
next
  case (Suc k)
  let ?s1 = "s\<lparr>counter := int k, dlocs := (dlocs s)[0 := DRow (int k)]\<rparr>"
  let ?s2 = "(account_row work 0 (int k) ?s1)\<lparr>dlocs := (dlocs ?s1)[0 := DLock]\<rparr>"
  have 1: "sum_dynamic work 0 s = Some (Claimed 0 (int k), ?s1)"
    using Suc.prems by (simp add: sum_dynamic_def claim_def)
  have 2: "sum_dynamic work 0 ?s1 = Some (Summed 0 (int k), ?s2)"
    using Suc.prems by (simp add: sum_dynamic_def)
  have "dlocs ?s2 = replicate n DLock" "counter ?s2 = int k"
    using Suc.prems by (simp_all add: account_row_def replicate_update_same)
  from Suc.IH[OF this(1) Suc.prems(2) this(2)] obtain es s' where
    r: "exec (sum_dynamic work) (replicate (2 * k) 0) ?s2 = Some (es, s')"
    and e: "dlocs s' = replicate n DLock" "counter s' = 0" by blast
  have "replicate (2 * Suc k) (0::nat) = 0 # 0 # replicate (2 * k) 0" by simp
  then have "exec (sum_dynamic work) (replicate (2 * Suc k) 0) s =
             Some (Claimed 0 (int k) # Summed 0 (int k) # es, s')"
    using 1 2 r by simp
  with e show ?case by blast
qed

lemma dyn_all_exit:
  assumes "counter s = 0" "length (dlocs s) = n" "m \<le> n"
    and "\<forall>t. m \<le> t \<and> t < n \<longrightarrow> dlocs s ! t = DLock" and "\<forall>t<m. dlocs s ! t = DEnd"
  shows "\<exists>es s'. exec (sum_dynamic work) [m..<n] s = Some (es, s') \<and> dynamic_done s'"
  using assms
proof (induction "n - m" arbitrary: m s)
  case 0
  then have "dynamic_done s" by (simp add: dynamic_done_def list_all_length)
  with 0 show ?case by simp
next
  case (Suc d)
  then have mn: "m < n" by simp
  let ?s1 = "s\<lparr>dlocs := (dlocs s)[m := DEnd]\<rparr>"
  have 1: "sum_dynamic work m s = Some (Exhausted m, ?s1)"
    using Suc.prems mn by (simp add: sum_dynamic_def claim_def)
  have "d = n - Suc m" using Suc.hyps(2) by simp
  moreover have "counter ?s1 = 0" "length (dlocs ?s1) = n" "Suc m \<le> n"
    using Suc.prems mn by simp_all
  moreover have "\<forall>t. Suc m \<le> t \<and> t < n \<longrightarrow> dlocs ?s1 ! t = DLock"
    using Suc.prems by (simp add: nth_list_update)
  moreover have "\<forall>t<Suc m. dlocs ?s1 ! t = DEnd"
    using Suc.prems mn by (simp add: nth_list_update less_Suc_eq)
  ultimately obtain es s' where
    r: "exec (sum_dynamic work) [Suc m..<n] ?s1 = Some (es, s')" and f: "dynamic_done s'"
    using Suc.hyps(1)[of "Suc m" ?s1] by blast
  have "[m..<n] = m # [Suc m..<n]" using mn by (simp add: upt_rec)
  then have "exec (sum_dynamic work) [m..<n] s = Some (Exhausted m # es, s')"
    using 1 r by simp
  with f show ?case by blast
qed

lemma sequential_dynamic_complete:
  assumes "0 < n"
  shows "\<exists>es s. dynamic_complete work n (sequential_dynamic n) es s"
proof -
  let ?s0 = "dynamic_init n"
  have "dlocs ?s0 = replicate n DLock" "counter ?s0 = int rows" by (simp_all add: dynamic_init_def)
  from dyn_drain[OF this(1) assms this(2)] obtain es1 s1 where
    a: "exec (sum_dynamic work) (replicate (2 * rows) 0) ?s0 = Some (es1, s1)"
    and b: "dlocs s1 = replicate n DLock" "counter s1 = 0" by blast
  from b have "\<exists>es s'. exec (sum_dynamic work) [0..<n] s1 = Some (es, s') \<and> dynamic_done s'"
    by (intro dyn_all_exit) simp_all
  then obtain es2 s2 where c: "exec (sum_dynamic work) [0..<n] s1 = Some (es2, s2)"
    and d: "dynamic_done s2" by blast
  from a c have "dynamic_run work n (sequential_dynamic n) = Some (es1 @ es2, s2)"
    by (simp add: dynamic_run_def sequential_dynamic_def exec_append)
  with d show ?thesis by (auto simp: dynamic_complete_def)
qed

section \<open>Runs of the static workers\<close>

lemma wrap_int_id: "- (2 ^ 31) \<le> x \<Longrightarrow> x < 2 ^ 31 \<Longrightarrow> wrap_int x = x"
  by (simp add: wrap_int_def)


text \<open>The two steps a static worker can take.\<close>

lemma sum_static_cases [consumes 1, case_names body exit]:
  assumes "sum_static work m t s = Some (e, s')"
  obtains
    (body) i where "t < length (locs s)" "locs s ! t = SLoop i" "i < int rows"
      "e = Summed t i"
      "s' = (account_row work t i s)\<lparr>locs := (locs s)[t := SLoop (wrap_int (i + m))]\<rparr>"
  | (exit) i where "t < length (locs s)" "locs s ! t = SLoop i" "int rows \<le> i"
      "e = Left t"
      "s' = s\<lparr>locs := (locs s)[t := SEnd]\<rparr>"
  using assms
  by (auto simp: sum_static_def split: if_splits slocal.splits)

lemma static_at_other:
  assumes "static_at n u es s k" "u \<noteq> t" "rows_of u (summed [e]) = []" "locs s' = (locs s)[t := l]"
  shows "static_at n u (es @ [e]) s' k"
  using assms by (simp add: static_at_def summed_append rows_of_append)

lemma static_at_body:
  assumes at: "static_at n t es s k" and loc: "locs s ! t = SLoop i" and i: "i < int rows"
    and t: "t < length (locs s)" and n: "int n + int rows \<le> 2 ^ 31"
    and s': "locs s' = (locs s)[t := SLoop (wrap_int (i + int n))]"
  shows "static_at n t (es @ [Summed t i]) s' (Suc k)"
proof -
  from at loc have ik: "i = int t + int k * int n" by (simp add: static_at_def)
  have "0 \<le> i" by (simp add: ik)
  with i n have "wrap_int (i + int n) = i + int n" by (intro wrap_int_id) simp_all
  with at i t s' show ?thesis
    by (auto simp: static_at_def summed_append rows_of_append rows_of_single ik
          less_Suc_eq algebra_simps)
qed

lemma static_at_exit:
  assumes at: "static_at n t es s k" and loc: "locs s ! t = SLoop i" and i: "int rows \<le> i"
    and t: "t < length (locs s)" and s': "locs s' = (locs s)[t := SEnd]"
  shows "static_at n t (es @ [Left t]) s' k"
  using assms by (auto simp: static_at_def summed_append)

lemma static_inv_run:
  assumes run: "static_run work n sched = Some (es, s)" and n: "int n + int rows \<le> 2 ^ 31"
  shows "static_inv n es s"
  using run unfolding static_run_def
proof (induction rule: exec_induct)
  case init
  have "static_at n t [] (static_init n) 0" if "t < n" for t
    using that by (simp add: static_at_def static_init_def rows_of_def)
  then show ?case by (auto simp: static_inv_def static_shape_def static_init_def)
next
  case (step es s t e s')
  from step(1) have sh: "static_shape n s" and at: "\<And>u. u < n \<Longrightarrow> \<exists>k. static_at n u es s k"
    and fs: "\<forall>p\<in>set (summed es). fst p < n"
    by (simp_all add: static_inv_def)
  from step(2) show ?case
  proof (cases rule: sum_static_cases)
    case (body i)
    from body sh have tn: "t < n" by (simp add: static_shape_def)
    have sh': "static_shape n s'" using sh body by (simp add: static_shape_def account_row_def)
    have l': "locs s' = (locs s)[t := SLoop (wrap_int (i + int n))]"
      using body by (simp add: account_row_def)
    have "\<exists>k. static_at n u (es @ [e]) s' k" if u: "u < n" for u
    proof (cases "u = t")
      case True
      from at[OF tn] obtain k where "static_at n t es s k" ..
      from static_at_body[OF this body(2) body(3) body(1) n l'] show ?thesis
        using True body(4) by blast
    next
      case False
      from at[OF u] obtain k where "static_at n u es s k" ..
      from static_at_other[OF this False _ l', of e] show ?thesis
        using False body(4) by (auto simp: rows_of_def)
    qed
    moreover have "\<forall>p\<in>set (summed (es @ [e])). fst p < n"
      using fs tn body(4) by (auto simp: summed_append)
    ultimately show ?thesis using sh' by (simp add: static_inv_def)
  next
    case (exit i)
    from exit sh have tn: "t < n" by (simp add: static_shape_def)
    have sh': "static_shape n s'" using sh exit by (simp add: static_shape_def)
    have l': "locs s' = (locs s)[t := SEnd]" using exit by simp
    have "\<exists>k. static_at n u (es @ [e]) s' k" if u: "u < n" for u
    proof (cases "u = t")
      case True
      from at[OF tn] obtain k where "static_at n t es s k" ..
      from static_at_exit[OF this exit(2) exit(3) exit(1) l'] show ?thesis
        using True exit(4) by blast
    next
      case False
      from at[OF u] obtain k where "static_at n u es s k" ..
      from static_at_other[OF this False _ l', of e] show ?thesis
        using False exit(4) by (auto simp: rows_of_def)
    qed
    moreover have "\<forall>p\<in>set (summed (es @ [e])). fst p < n"
      using fs exit(4) by (auto simp: summed_append)
    ultimately show ?thesis using sh' by (simp add: static_inv_def)
  qed
qed

lemma static_tables_run:
  assumes "static_run work n sched = Some (es, s)"
  shows "static_shape n s \<and> slots_ok work es s \<and> totals_ok work es s"
  using assms unfolding static_run_def
proof (induction rule: exec_induct)
  case init
  show ?case
    by (simp add: static_shape_def slots_ok_def totals_ok_def static_init_def rows_of_def
          sum_list_replicate)
next
  case (step es s t e s')
  from step(2) step(1) show ?case
  proof (cases rule: sum_static_cases)
    case (body i)
    with step(1) have a: "slots_ok work (es @ [Summed t i]) (account_row work t i s)"
      and b: "totals_ok work (es @ [Summed t i]) (account_row work t i s)"
      by (auto simp: static_shape_def intro!: slots_ok_account totals_ok_account)
    from a b body step(1) show ?thesis
      by (simp add: static_shape_def slots_ok_def totals_ok_def account_row_def)
  next
    case (exit i)
    with step(1) show ?thesis
      by (auto simp: static_shape_def intro!: slots_ok_other totals_ok_other)
  qed
qed

lemma static_done_at:
  assumes inv: "static_inv n es s" and fin: "static_done s" and t: "t < n"
  obtains k where "rows_of t (summed es) = map (\<lambda>j. int t + int j * int n) [0..<k]"
    and "\<forall>j<k. int t + int j * int n < int rows" and "int rows \<le> int t + int k * int n"
proof -
  from inv t obtain k where at: "static_at n t es s k" by (auto simp: static_inv_def)
  from inv fin t have "locs s ! t = SEnd"
    by (simp add: static_inv_def static_shape_def static_done_def list_all_length)
  with at that show thesis by (simp add: static_at_def)
qed

lemma static_count_unique:
  assumes n: "0 < n" and t: "t < n" and lo: "\<forall>j<k. int t + int j * int n < int rows"
    and hi: "int rows \<le> int t + int k * int n"
  shows "k = static_count n t"
proof -
  have hi': "rows \<le> t + k * n" using hi by (metis of_nat_add of_nat_mult of_nat_le_iff)
  have lo': "k = 0 \<or> t + (k - 1) * n < rows"
  proof (cases k)
    case 0
    then show ?thesis by simp
  next
    case (Suc j)
    with lo have "int t + int j * int n < int rows" by simp
    then have "t + j * n < rows" by (metis of_nat_add of_nat_mult of_nat_less_iff)
    with Suc show ?thesis by simp
  qed
  have "(rows + n - 1 - t) div n = k"
  proof (rule div_nat_eqI)
    show "n * k \<le> rows + n - 1 - t"
    proof (cases k)
      case 0
      then show ?thesis by simp
    next
      case (Suc j)
      with lo' have "t + j * n < rows" by simp
      with t Suc show ?thesis by (simp add: algebra_simps)
    qed
    show "rows + n - 1 - t < n * Suc k"
      using hi' n t by (simp add: algebra_simps)
  qed
  then show ?thesis by (simp add: static_count_def)
qed

lemma static_count_next:
  assumes "0 < n" "t < n"
  shows "int rows \<le> int t + int (static_count n t) * int n"
proof -
  let ?m = "rows + n - 1 - t"
  have "?m < n * Suc (?m div n)" using assms(1) by (simp add: dividend_less_times_div)
  then have "rows \<le> t + static_count n t * n"
    using assms by (simp add: static_count_def algebra_simps)
  then show ?thesis by (metis of_nat_add of_nat_mult of_nat_le_iff)
qed

lemma static_complete_rows:
  assumes run: "static_run work n sched = Some (es, s)" and fin: "static_done s"
    and n: "0 < n" "int n + int rows \<le> 2 ^ 31" and t: "t < n"
  shows "rows_of t (summed es) = static_rows n t"
proof -
  from static_inv_run[OF run n(2)] have inv: "static_inv n es s" .
  from inv fin t obtain k where k: "rows_of t (summed es) = map (\<lambda>j. int t + int j * int n) [0..<k]"
    "\<forall>j<k. int t + int j * int n < int rows" "int rows \<le> int t + int k * int n"
    by (rule static_done_at)
  from static_count_unique[OF n(1) t k(2) k(3)] k(1) show ?thesis
    by (simp add: static_rows_def)
qed

lemma static_rows_bounds:
  assumes n: "0 < n" and t: "t < n"
  shows "\<forall>r\<in>set (static_rows n t). 0 \<le> r \<and> r < int rows \<and> r mod int n = int t"
proof
  fix r assume "r \<in> set (static_rows n t)"
  then obtain j where j: "j < static_count n t" and r: "r = int t + int j * int n"
    by (auto simp: static_rows_def)
  from j have "Suc j * n \<le> rows + n - 1 - t"
    unfolding static_count_def using n by (metis Suc_leI less_eq_div_iff_mult_less_eq mult.commute)
  then have "t + j * n < rows" using t n by (simp add: algebra_simps)
  then have "int t + int j * int n < int rows"
    by (metis of_nat_add of_nat_mult of_nat_less_iff)
  moreover have "(int t + int j * int n) mod int n = int t" using t by simp
  ultimately show "0 \<le> r \<and> r < int rows \<and> r mod int n = int t" by (simp add: r)
qed

lemma static_rows_cover:
  assumes n: "0 < n" and m: "m < rows"
  shows "int m \<in> set (static_rows n (m mod n))"
proof -
  let ?t = "m mod n" and ?j = "m div n"
  have tn: "?t < n" using n by simp
  have mm: "m = ?t + ?j * n" by simp
  have "?j < static_count n ?t"
  proof -
    have "Suc ?j * n \<le> rows + n - 1 - ?t"
    proof -
      have a: "?j * n + ?t + 1 \<le> rows" using m mm by linarith
      have b: "Suc ?j * n = n + ?j * n" by simp
      show ?thesis unfolding b using a tn by linarith
    qed
    then show ?thesis
      unfolding static_count_def using n
      by (metis Suc_le_lessD less_eq_div_iff_mult_less_eq mult.commute Suc_leI not_less)
  qed
  moreover have "int m = int ?t + int ?j * int n"
    by (metis mm of_nat_add of_nat_mult)
  ultimately show ?thesis by (auto simp: static_rows_def)
qed

lemma strided_distinct:
  assumes n: "0 < n" and fs: "\<forall>p\<in>set ps. fst p < n"
    and shape: "\<And>t. t < n \<Longrightarrow> \<exists>k. rows_of t ps = map (\<lambda>j. int t + int j * int n) [0..<k] \<and>
                  (\<forall>j<k. int t + int j * int n < int rows)"
  shows "distinct (map snd ps)" and "set (map snd ps) \<subseteq> int ` {0..<rows}"
proof -
  have mem: "\<exists>j. r = int t + int j * int n \<and> r < int rows" if "(t, r) \<in> set ps" for t r
  proof -
    from that fs have t: "t < n" by force
    from shape[OF t] obtain k where k: "rows_of t ps = map (\<lambda>j. int t + int j * int n) [0..<k]"
      "\<forall>j<k. int t + int j * int n < int rows" by blast
    from that have "r \<in> set (rows_of t ps)" by (simp add: in_rows_of)
    with k show ?thesis by auto
  qed
  have dps: "distinct ps"
  proof (rule distinct_by_fst)
    fix t
    show "distinct (filter (\<lambda>p. fst p = t) ps)"
    proof (cases "t < n")
      case True
      from shape[OF True] obtain k where "rows_of t ps = map (\<lambda>j. int t + int j * int n) [0..<k]"
        by blast
      moreover have "distinct (map (\<lambda>j. int t + int j * int n) [0..<k])"
        using n by (auto simp: distinct_map intro!: inj_onI)
      ultimately have "distinct (map snd (filter (\<lambda>p. fst p = t) ps))"
        by (simp add: rows_of_def)
      then show ?thesis by (simp add: distinct_map)
    next
      case False
      with fs have "filter (\<lambda>p. fst p = t) ps = []" by (auto simp: filter_empty_conv)
      then show ?thesis by simp
    qed
  qed
  have inj: "inj_on snd (set ps)"
  proof (rule inj_onI)
    fix p q assume p: "p \<in> set ps" and q: "q \<in> set ps" and e: "snd p = snd q"
    obtain t r where pp: "p = (t, r)" by (cases p)
    obtain u r' where qq: "q = (u, r')" by (cases q)
    from p pp fs have t: "t < n" by force
    from q qq fs have u: "u < n" by force
    from mem p pp obtain j where "r = int t + int j * int n" by blast
    then have a: "r mod int n = int t" using t by simp
    from mem q qq obtain j' where "r' = int u + int j' * int n" by blast
    then have b: "r' mod int n = int u" using u by simp
    from a b e pp qq show "p = q" by simp
  qed
  from dps inj show "distinct (map snd ps)" by (simp add: distinct_map)
  show "set (map snd ps) \<subseteq> int ` {0..<rows}"
  proof
    fix r assume "r \<in> set (map snd ps)"
    then obtain t where "(t, r) \<in> set ps" by force
    from mem[OF this] have "0 \<le> r" "r < int rows" by auto
    then have "nat r \<in> {0..<rows}" "r = int (nat r)" by simp_all
    then show "r \<in> int ` {0..<rows}" by (rule_tac image_eqI)
  qed
qed

lemma static_partial:
  assumes run: "static_run work n sched = Some (es, s)" and n: "0 < n" "int n + int rows \<le> 2 ^ 31"
  shows "distinct (map snd (summed es))" and "set (map snd (summed es)) \<subseteq> int ` {0..<rows}"
    and "length (summed es) \<le> rows"
proof -
  from static_inv_run[OF run n(2)] have inv: "static_inv n es s" .
  have fs: "\<forall>p\<in>set (summed es). fst p < n" using inv by (simp add: static_inv_def)
  have shape: "\<exists>k. rows_of t (summed es) = map (\<lambda>j. int t + int j * int n) [0..<k] \<and>
                  (\<forall>j<k. int t + int j * int n < int rows)" if "t < n" for t
    using inv that by (auto simp: static_inv_def static_at_def)
  show d: "distinct (map snd (summed es))" using n(1) fs shape by (rule strided_distinct(1))
  show s: "set (map snd (summed es)) \<subseteq> int ` {0..<rows}" using n(1) fs shape by (rule strided_distinct(2))
  have "length (map snd (summed es)) = card (set (map snd (summed es)))"
    using d by (simp only: distinct_card)
  also have "\<dots> \<le> card (int ` {0..<rows})" using s by (intro card_mono) simp_all
  also have "\<dots> \<le> rows" using card_image_le[of "{0..<rows}" int] by simp
  finally show "length (summed es) \<le> rows" by simp
qed

lemma static_complete_mset:
  assumes run: "static_run work n sched = Some (es, s)" and fin: "static_done s"
    and n: "0 < n" "int n + int rows \<le> 2 ^ 31"
  shows "distinct (map snd (summed es))" and "set (map snd (summed es)) = int ` {0..<rows}"
    and "mset (map snd (summed es)) = mset (map int [0..<rows])"
proof -
  let ?ps = "summed es"
  show d: "distinct (map snd ?ps)" using run n by (rule static_partial(1))
  have sub: "set (map snd ?ps) \<subseteq> int ` {0..<rows}" using run n by (rule static_partial(2))
  have sup: "int ` {0..<rows} \<subseteq> set (map snd ?ps)"
  proof
    fix r assume "r \<in> int ` {0..<rows}"
    then obtain m where m: "m < rows" "r = int m" by auto
    have t: "m mod n < n" using n(1) by simp
    from static_rows_cover[OF n(1) m(1)] static_complete_rows[OF run fin n t]
    have "r \<in> set (rows_of (m mod n) ?ps)" by (simp add: m(2))
    then have "(m mod n, r) \<in> set ?ps" by (simp add: in_rows_of)
    then show "r \<in> set (map snd ?ps)" by force
  qed
  from sub sup show s: "set (map snd ?ps) = int ` {0..<rows}" by (rule subset_antisym)
  have "distinct (map int [0..<rows])" by (simp add: distinct_map)
  moreover have "set (map snd ?ps) = set (map int [0..<rows])" using s by simp
  ultimately show "mset (map snd ?ps) = mset (map int [0..<rows])"
    using d by (simp only: set_eq_iff_mset_eq_distinct)
qed

lemma static_correct:
  assumes run: "static_run work n sched = Some (es, s)" and fin: "static_done s"
    and n: "0 < n" "int n + int rows \<le> 2 ^ 31"
  shows "gross_sum s = reference_sum work" and "total_work n s = int rows"
proof -
  from static_tables_run[OF run] have tot: "totals_ok work es s" and len: "length (tcount s) = n"
    by (simp_all add: static_shape_def)
  from totals_complete[OF tot len static_complete_mset(3)[OF run fin n]]
  show "gross_sum s = reference_sum work" and "total_work n s = int rows" by simp_all
qed

lemma static_prefix:
  assumes run: "static_run work n sched = Some (es, s)" and n: "0 < n" "int n + int rows \<le> 2 ^ 31"
    and t: "t < n"
  shows "\<exists>k. rows_of t (summed es) = take k (static_rows n t)"
proof -
  from static_inv_run[OF run n(2)] t obtain k where
    k: "rows_of t (summed es) = map (\<lambda>j. int t + int j * int n) [0..<k]"
       "\<forall>j<k. int t + int j * int n < int rows"
    by (auto simp: static_inv_def static_at_def)
  have "k \<le> static_count n t"
  proof (rule ccontr)
    assume "\<not> k \<le> static_count n t"
    then have "static_count n t < k" by simp
    with k(2) have "int t + int (static_count n t) * int n < int rows" by blast
    with static_count_next[OF n(1) t] show False by simp
  qed
  then have "take k (static_rows n t) = map (\<lambda>j. int t + int j * int n) [0..<k]"
    by (simp add: static_rows_def take_map)
  with k(1) have "rows_of t (summed es) = take k (static_rows n t)" by simp
  then show ?thesis ..
qed

lemma static_rows_in_range:
  assumes run: "static_run work n sched = Some (es, s)" and n: "0 < n" "int n + int rows \<le> 2 ^ 31"
    and p: "(t, r) \<in> set (summed es)"
  shows "0 \<le> r \<and> r < int rows"
proof -
  from p have "r \<in> set (map snd (summed es))" by force
  with static_partial(2)[OF run n] show ?thesis by auto
qed

lemma static_slots:
  assumes run: "static_run work n sched = Some (es, s)" and fin: "static_done s"
    and n: "0 < n" "int n + int rows \<le> 2 ^ 31"
  shows "tcount s = map (\<lambda>t. int (static_count n t)) [0..<n]"
    and "sum_vec s = map (\<lambda>t. fold (sum_row work) (static_rows n t) 0) [0..<n]"
proof -
  from static_tables_run[OF run] have sh: "static_shape n s" and sl: "slots_ok work es s" by simp_all
  have ro: "rows_of t (summed es) = static_rows n t" if "t < n" for t
    using static_complete_rows[OF run fin n that] .
  show "tcount s = map (\<lambda>t. int (static_count n t)) [0..<n]"
  proof (rule nth_equalityI)
    show "length (tcount s) = length (map (\<lambda>t. int (static_count n t)) [0..<n])"
      using sh by (simp add: static_shape_def)
    fix t assume "t < length (tcount s)"
    then have t: "t < n" using sh by (simp add: static_shape_def)
    with sl sh show "tcount s ! t = map (\<lambda>t. int (static_count n t)) [0..<n] ! t"
      by (simp add: slots_ok_def static_shape_def ro static_rows_def)
  qed
  show "sum_vec s = map (\<lambda>t. fold (sum_row work) (static_rows n t) 0) [0..<n]"
  proof (rule nth_equalityI)
    show "length (sum_vec s) = length (map (\<lambda>t. fold (sum_row work) (static_rows n t) 0) [0..<n])"
      using sh by (simp add: static_shape_def)
    fix t assume "t < length (sum_vec s)"
    then have t: "t < n" using sh by (simp add: static_shape_def)
    with sl sh show "sum_vec s ! t = map (\<lambda>t. fold (sum_row work) (static_rows n t) 0) [0..<n] ! t"
      by (simp add: slots_ok_def static_shape_def ro fold_sum_row)
  qed
qed

text \<open>A run has one step per row summed and one per worker that has returned, so at most rows + n steps.\<close>

lemma static_steps_run:
  assumes "static_run work n sched = Some (es, s)"
  shows "int (length es) = int (length (summed es)) + sum_list (map sweight (locs s))"
  using assms unfolding static_run_def
proof (induction rule: exec_induct)
  case init
  show ?case by (simp add: static_init_def comp_def sum_list_triv)
next
  case (step es s t e s')
  from step(2) step(1) show ?case
    by (cases rule: sum_static_cases)
       (simp_all add: account_row_def map_update sum_list_update_int summed_append)
qed

lemma sweight_le: "sum_list (map sweight ls) \<le> int (length ls)"
proof (induction ls)
  case Nil
  then show ?case by simp
next
  case (Cons l ls)
  then show ?case by (cases l) simp_all
qed

lemma static_bound:
  assumes run: "static_run work n sched = Some (es, s)" and n: "0 < n" "int n + int rows \<le> 2 ^ 31"
  shows "length sched \<le> rows + n"
proof -
  have "length es = length sched" using run unfolding static_run_def by (rule exec_length)
  moreover have "length (locs s) = n"
    using static_tables_run[OF run] by (simp add: static_shape_def)
  ultimately show ?thesis
    using static_steps_run[OF run] sweight_le[of "locs s"] static_partial(3)[OF run n] by linarith
qed

lemma static_progress:
  assumes nf: "\<not> static_done s"
  shows "\<exists>t e s'. sum_static work m t s = Some (e, s')"
proof -
  from nf obtain t where t: "t < length (locs s)" "locs s ! t \<noteq> SEnd"
    by (auto simp: static_done_def list_all_length)
  then have "\<exists>e s'. sum_static work m t s = Some (e, s')"
    by (cases "locs s ! t") (simp_all add: sum_static_def)
  then show ?thesis by blast
qed

lemma static_extend:
  assumes run: "static_run work n sched = Some (es, s)" and n: "0 < n" "int n + int rows \<le> 2 ^ 31"
  shows "\<exists>more es' s'. static_run work n (sched @ more) = Some (es', s') \<and> static_done s'"
  using run unfolding static_run_def
  by (rule extend_to_complete[where B = "rows + n", rotated 2])
     (auto intro: static_bound[OF _ n] static_progress simp: static_run_def[symmetric])

lemma static_complete_exists:
  assumes n: "0 < n" "int n + int rows \<le> 2 ^ 31"
  shows "\<exists>sched es s. static_run work n sched = Some (es, s) \<and> static_done s"
proof -
  have "static_run work n [] = Some ([], static_init n)" by (simp add: static_run_def)
  from static_extend[OF this n] show ?thesis by auto
qed

text \<open>The schedule in which each worker in turn runs to its end is a complete run.\<close>

lemma static_count_below:
  assumes "0 < n" "t < n" "j < static_count n t"
  shows "int t + int j * int n < int rows"
proof -
  have "int t + int j * int n \<in> set (static_rows n t)"
    using assms(3) by (force simp: static_rows_def)
  with static_rows_bounds[OF assms(1,2)] show ?thesis by blast
qed

lemma static_alone:
  assumes n: "0 < n" "int n + int rows \<le> 2 ^ 31" and tn: "t < n"
    and t: "t < length (locs s)" and loc: "locs s ! t = SLoop (int t + int j * int n)"
    and j: "j \<le> static_count n t"
  shows "\<exists>es s'. exec (sum_static work (int n)) (replicate (Suc (static_count n t - j)) t) s =
                   Some (es, s') \<and> locs s' = (locs s)[t := SEnd]"
  using t loc j
proof (induction "static_count n t - j" arbitrary: j s)
  case 0
  then have "j = static_count n t" by simp
  with static_count_next[OF n(1) tn] have "\<not> int t + int j * int n < int rows" by simp
  with 0 have "sum_static work (int n) t s = Some (Left t, s\<lparr>locs := (locs s)[t := SEnd]\<rparr>)"
    by (simp add: sum_static_def)
  with 0 show ?case by simp
next
  case (Suc d)
  let ?i = "int t + int j * int n"
  let ?s1 = "(account_row work t ?i s)\<lparr>locs := (locs s)[t := SLoop (int t + int (Suc j) * int n)]\<rparr>"
  from Suc have jc: "j < static_count n t" by simp
  from static_count_below[OF n(1) tn jc] have i: "?i < int rows" .
  have lo: "- (2 ^ 31) \<le> ?i + int n" by (rule order_trans[of _ 0]) simp_all
  have hi: "?i + int n < 2 ^ 31" using i n(2) by simp
  from lo hi have "wrap_int (?i + int n) = ?i + int n" by (rule wrap_int_id)
  then have w: "wrap_int (?i + int n) = int t + int (Suc j) * int n" by (simp add: algebra_simps)
  have 1: "sum_static work (int n) t s = Some (Summed t ?i, ?s1)"
    using Suc.prems i by (simp add: sum_static_def w del: of_nat_Suc)
  have "d = static_count n t - Suc j" using Suc.hyps(2) by simp
  moreover have "t < length (locs ?s1)" "locs ?s1 ! t = SLoop (int t + int (Suc j) * int n)"
    "Suc j \<le> static_count n t"
    using Suc.prems jc by simp_all
  ultimately obtain es s' where
    r: "exec (sum_static work (int n)) (replicate (Suc (static_count n t - Suc j)) t) ?s1 = Some (es, s')"
    and l: "locs s' = (locs ?s1)[t := SEnd]"
    using Suc.hyps(1)[of "Suc j" ?s1] by blast
  have "Suc (static_count n t - j) = Suc (Suc (static_count n t - Suc j))" using jc by simp
  then have "exec (sum_static work (int n)) (replicate (Suc (static_count n t - j)) t) s =
             Some (Summed t ?i # es, s')"
    using 1 r by simp
  moreover have "locs s' = (locs s)[t := SEnd]" using l by simp
  ultimately show ?case by blast
qed

lemma static_all_seq:
  assumes n: "0 < n" "int n + int rows \<le> 2 ^ 31"
    and "length (locs s) = n" "m \<le> n"
    and "\<forall>t. m \<le> t \<and> t < n \<longrightarrow> locs s ! t = SLoop (int t)" and "\<forall>t<m. locs s ! t = SEnd"
  shows "\<exists>es s'. exec (sum_static work (int n))
                   (concat (map (\<lambda>t. replicate (Suc (static_count n t)) t) [m..<n])) s =
                 Some (es, s') \<and> static_done s'"
  using assms(3-)
proof (induction "n - m" arbitrary: m s)
  case 0
  then have "static_done s" by (simp add: static_done_def list_all_length)
  with 0 show ?case by simp
next
  case (Suc d)
  then have mn: "m < n" by simp
  have "locs s ! m = SLoop (int m + int 0 * int n)" using Suc.prems mn by simp
  from static_alone[OF n mn _ this, of work] Suc.prems mn obtain es1 s1 where
    a: "exec (sum_static work (int n)) (replicate (Suc (static_count n m)) m) s = Some (es1, s1)"
    and l: "locs s1 = (locs s)[m := SEnd]" by auto
  have "d = n - Suc m" using Suc.hyps(2) by simp
  moreover have "length (locs s1) = n" "Suc m \<le> n" using Suc.prems mn l by simp_all
  moreover have "\<forall>t. Suc m \<le> t \<and> t < n \<longrightarrow> locs s1 ! t = SLoop (int t)"
    using Suc.prems l by (simp add: nth_list_update)
  moreover have "\<forall>t<Suc m. locs s1 ! t = SEnd"
    using Suc.prems mn l by (simp add: nth_list_update less_Suc_eq)
  ultimately obtain es2 s2 where
    b: "exec (sum_static work (int n))
          (concat (map (\<lambda>t. replicate (Suc (static_count n t)) t) [Suc m..<n])) s1 = Some (es2, s2)"
    and f: "static_done s2"
    using Suc.hyps(1)[of "Suc m" s1] by blast
  have "[m..<n] = m # [Suc m..<n]" using mn by (simp add: upt_rec)
  then have "exec (sum_static work (int n))
               (concat (map (\<lambda>t. replicate (Suc (static_count n t)) t) [m..<n])) s =
             Some (es1 @ es2, s2)"
    using a b by (simp add: exec_append del: replicate.simps)
  with f show ?case by blast
qed

lemma sequential_static_complete:
  assumes "0 < n" "int n + int rows \<le> 2 ^ 31"
  shows "\<exists>es s. static_complete work n (sequential_static n) es s"
proof -
  have "\<exists>es s'. exec (sum_static work (int n))
                   (concat (map (\<lambda>t. replicate (Suc (static_count n t)) t) [0..<n])) (static_init n) =
                 Some (es, s') \<and> static_done s'"
    using assms by (intro static_all_seq) (simp_all add: static_init_def)
  then show ?thesis by (simp add: static_complete_def static_run_def sequential_static_def)
qed

lemma sequential_static_two: "sequential_static 2 = replicate 501 0 @ replicate 501 1"
proof -
  have "[0..<2] = [0, 1]" by (simp add: upt_rec)
  then show ?thesis
    by (simp add: sequential_static_def static_count_def rows_def del: replicate.simps)
qed

section \<open>Sums without wrap-around\<close>

text \<open>A sum of at most rows * cols 64-bit words, each below 2 ^ 31, is below 2 ^ 48 and is computed without wrap-around.\<close>

lemma uint_scast_nonneg:
  fixes w :: "32 word"
  assumes "0 \<le> sint w"
  shows "uint (scast w :: 64 word) = sint w"
proof -
  have "sint w < 2 ^ 31" using sint_lt[of w] by simp
  then have "sint w < 2 ^ 64" by (rule less_trans) simp
  then have "sint w mod 2 ^ 64 = sint w" using assms by simp
  then show ?thesis by (simp only: scast_eq uint_word_of_int len_num1 len_bit0 mult_numeral_1_right numeral_times_numeral semiring_norm)
qed

lemma uint_scast_mod:
  fixes w :: "32 word"
  shows "uint (scast w :: 64 word) = sint w mod 2 ^ 64"
  by (simp only: scast_eq uint_word_of_int len_num1 len_bit0 mult_numeral_1_right
        numeral_times_numeral semiring_norm)

lemma uint_add_mod:
  fixes a b :: "64 word"
  shows "uint (a + b) = (uint a + uint b) mod 2 ^ 64"
  by (simp add: uint_word_ariths)

lemma uint_row_mod:
  "uint (sum_list (map (\<lambda>j. scast (f j :: 32 word)) js) :: 64 word) =
   sum_list (map (\<lambda>j. sint (f j)) js) mod 2 ^ 64"
proof (induction js)
  case Nil
  show ?case by simp
next
  case (Cons j js)
  have "uint (scast (f j) + sum_list (map (\<lambda>j. scast (f j)) js) :: 64 word) =
        (sint (f j) mod 2 ^ 64 + sum_list (map (\<lambda>j. sint (f j)) js) mod 2 ^ 64) mod 2 ^ 64"
    by (simp only: uint_add_mod uint_scast_mod Cons.IH)
  also have "\<dots> = (sint (f j) + sum_list (map (\<lambda>j. sint (f j)) js)) mod 2 ^ 64"
    by (rule mod_add_eq)
  finally show ?case by simp
qed

lemma uint_rows_mod:
  "uint (sum_list (map (row_total work) rs)) = sum_list (map (row_exact work) rs) mod 2 ^ 64"
proof (induction rs)
  case Nil
  show ?case by simp
next
  case (Cons r rs)
  have r: "uint (row_total work r) = row_exact work r mod 2 ^ 64"
    by (simp only: row_total_def row_exact_def uint_row_mod)
  have "uint (row_total work r + sum_list (map (row_total work) rs)) =
        (row_exact work r mod 2 ^ 64 + sum_list (map (row_exact work) rs) mod 2 ^ 64) mod 2 ^ 64"
    by (simp only: uint_add_mod Cons.IH r)
  also have "\<dots> = (row_exact work r + sum_list (map (row_exact work) rs)) mod 2 ^ 64"
    by (rule mod_add_eq)
  finally show ?case by simp
qed

lemma uint_sum_list:
  fixes ws :: "64 word list"
  assumes "\<forall>w\<in>set ws. uint w < B" and "int (length ws) * B \<le> 2 ^ 64"
  shows "uint (sum_list ws) = sum_list (map uint ws) \<and> sum_list (map uint ws) \<le> int (length ws) * B"
  using assms
proof (induction ws)
  case Nil
  then show ?case by simp
next
  case (Cons w ws)
  have w: "uint w < B" using Cons.prems(1) by simp
  have B: "0 < B" using w uint_ge_0[of w] by linarith
  have "int (length ws) * B \<le> int (length (w # ws)) * B" using B by (simp add: algebra_simps)
  with Cons have ih: "uint (sum_list ws) = sum_list (map uint ws)"
    "sum_list (map uint ws) \<le> int (length ws) * B" by auto
  have "uint w + uint (sum_list ws) < 2 ^ 64"
    using w ih Cons.prems(2) by (simp add: algebra_simps)
  then have "uint (w + sum_list ws) = uint w + uint (sum_list ws)"
    by (simp add: uint_add_lem[THEN iffD1])
  with ih w show ?case by (simp add: algebra_simps)
qed

lemma cells_total: "sum_list (cells work rs) = sum_list (map (row_total work) rs)"
  by (induction rs) (simp_all add: cells_def row_total_def)

lemma cells_length: "length (cells work rs) = length rs * cols"
  by (induction rs) (simp_all add: cells_def)

lemma cells_exact:
  assumes "\<forall>i j. 0 \<le> sint (work i j)"
  shows "sum_list (map uint (cells work rs)) = sum_list (map (row_exact work) rs)"
proof (induction rs)
  case Nil
  show ?case by (simp add: cells_def)
next
  case (Cons r rs)
  have "(\<lambda>j. uint (scast (work r j) :: 64 word)) = (\<lambda>j. sint (work r j))"
    using assms by (simp add: uint_scast_nonneg)
  with Cons show ?case by (simp add: cells_def row_exact_def comp_def)
qed

lemma cells_small:
  assumes "\<forall>i j. 0 \<le> sint (work i j)"
  shows "\<forall>w\<in>set (cells work rs). uint w < 2 ^ 31"
proof
  fix w assume "w \<in> set (cells work rs)"
  then obtain i j where w: "w = scast (work i j)" by (auto simp: cells_def)
  have "sint (work i j) < 2 ^ 31" using sint_lt[of "work i j"] by simp
  with assms show "uint w < 2 ^ 31" by (simp add: w uint_scast_nonneg)
qed

lemma exact_sum:
  assumes nonneg: "\<forall>i j. 0 \<le> sint (work i j)" and len: "length rs \<le> rows"
  shows "uint (sum_list (map (row_total work) rs)) = sum_list (map (row_exact work) rs)"
    and "sum_list (map (row_exact work) rs) < 2 ^ 48"
proof -
  have "length rs * cols \<le> rows * cols" using len by simp
  then have l: "int (length (cells work rs)) \<le> 100000"
    by (simp add: cells_length rows_def cols_def)
  then have "int (length (cells work rs)) * 2 ^ 31 \<le> 100000 * 2 ^ 31" by simp
  also have "\<dots> < (2 ^ 48 :: int)" by simp
  finally have b48: "int (length (cells work rs)) * 2 ^ 31 < 2 ^ 48" .
  then have b64: "int (length (cells work rs)) * 2 ^ 31 \<le> 2 ^ 64" by simp
  from uint_sum_list[OF cells_small[OF nonneg] b64]
  have u: "uint (sum_list (cells work rs)) = sum_list (map uint (cells work rs))"
    and le: "sum_list (map uint (cells work rs)) \<le> int (length (cells work rs)) * 2 ^ 31"
    by simp_all
  from u show "uint (sum_list (map (row_total work) rs)) = sum_list (map (row_exact work) rs)"
    by (simp only: cells_total cells_exact[OF nonneg])
  from le b48 show "sum_list (map (row_exact work) rs) < 2 ^ 48"
    by (simp only: cells_exact[OF nonneg])
qed

section \<open>The option loop\<close>









lemma digits_value_no_digit: "(case cs of [] \<Rightarrow> True | d # ds \<Rightarrow> \<not> is_digit d) \<Longrightarrow> digits_value 0 cs = 0"
  by (cases cs) simp_all


section \<open>The properties\<close>

lemma static_complete_ex:
  assumes "0 < n" "int n + int rows \<le> 2 ^ 31"
  shows "\<exists>sched es s. static_complete work n sched es s"
  using static_complete_exists[OF assms] by (simp add: static_complete_def)

lemma dynamic_complete_ex: "\<exists>sched es s. dynamic_complete work n sched es s"
  using dyn_complete_exists by (simp add: dynamic_complete_def)

lemma small_counts: "n \<in> {1, 2, 4, 8} \<Longrightarrow> 0 < n \<and> int n + int rows \<le> 2 ^ 31"
  by (auto simp: rows_def)

lemma gauss_list: "2 * sum_list (map int [0..<n]) = int n * (int n - 1)"
  by (induction n) (simp_all add: algebra_simps)

lemma sint_small:
  assumes "0 \<le> x" "x < 2 ^ 31"
  shows "sint (word_of_int x :: 32 word) = x"
proof -
  have "signed_take_bit 31 x = x"
    using assms by (intro signed_take_bit_int_eq_self) simp_all
  then show ?thesis by (simp add: sint_sbintrunc')
qed

lemma row_exact_example:
  assumes "i < rows"
  shows "row_exact (\<lambda>i j. word_of_int (i + int j)) (int i) = 100 * int i + 4950"
proof -
  have "sint (word_of_int (int i + int j) :: 32 word) = int i + int j" if "j < cols" for j
    using that assms by (intro sint_small) (simp_all add: rows_def cols_def)
  then have "map (\<lambda>j. sint (word_of_int (int i + int j) :: 32 word)) [0..<cols] =
             map (\<lambda>j. int i + int j) [0..<cols]" by simp
  then have "row_exact (\<lambda>i j. word_of_int (i + int j)) (int i) =
             sum_list (map (\<lambda>j. int i + int j) [0..<cols])"
    by (simp only: row_exact_def)
  also have "\<dots> = int cols * int i + sum_list (map int [0..<cols])"
    by (simp add: sum_list_addf sum_list_triv)
  also have "\<dots> = 100 * int i + 4950"
    using gauss_list[of cols] by (simp add: cols_def)
  finally show ?thesis .
qed

lemma matrix_exact_example:
  "sum_list (map (row_exact (\<lambda>i j. word_of_int (i + int j))) (map int [0..<rows])) = 54900000"
proof -
  have "map (\<lambda>i. row_exact (\<lambda>i j. word_of_int (i + int j)) (int i)) [0..<rows] =
        map (\<lambda>i. 100 * int i + 4950) [0..<rows]"
  proof (rule map_cong[OF refl])
    fix i assume "i \<in> set [0..<rows]"
    then have "i < rows" by simp
    then show "row_exact (\<lambda>i j. word_of_int (i + int j)) (int i) = 100 * int i + 4950"
      by (rule row_exact_example)
  qed
  then have "sum_list (map (row_exact (\<lambda>i j. word_of_int (i + int j))) (map int [0..<rows])) =
             sum_list (map (\<lambda>i. 100 * int i + 4950) [0..<rows])"
    by (simp only: map_map comp_def)
  also have "\<dots> = 100 * sum_list (map int [0..<rows]) + 4950 * int rows"
    by (simp add: sum_list_addf sum_list_triv sum_list_const_mult)
  also have "\<dots> = 54900000"
    using gauss_list[of rows] by (simp add: rows_def)
  finally show ?thesis .
qed

text \<open>
  C1. For a worker count \<open>n\<close> in \<open>{1, 2, 4, 8}\<close> and in both modes, whatever the
  interleaving of the workers, the gross sum that \<^verbatim>\<open>main\<close> folds from the per-thread
  sums once every worker has returned equals the reference sum of all matrix elements:
  the 64-bit sum written from the matrix alone (\<open>reference_sum\<close>), which is the sum of
  the elements over the integers reduced modulo \<open>2 ^ 64\<close>. Complete runs exist in both
  modes.
\<close>

theorem gross_sum_is_reference_sum:
  assumes "n \<in> {1, 2, 4, 8}"
  shows "(static_complete work n sched es s \<longrightarrow>
            gross_sum s = reference_sum work \<and>
            uint (gross_sum s) =
              sum_list (map (row_exact work) (map int [0..<rows])) mod 2 ^ 64) \<and>
         (dynamic_complete work n sched' es' s' \<longrightarrow>
            gross_sum s' = reference_sum work \<and>
            uint (gross_sum s') =
              sum_list (map (row_exact work) (map int [0..<rows])) mod 2 ^ 64) \<and>
         (\<exists>sc ev st. static_complete work n sc ev st) \<and>
         (\<exists>sc ev st. dynamic_complete work n sc ev st)"
proof -
  from small_counts[OF assms] have n: "0 < n" "int n + int rows \<le> 2 ^ 31" by simp_all
  have e: "uint (reference_sum work) = sum_list (map (row_exact work) (map int [0..<rows])) mod 2 ^ 64"
    by (simp only: reference_sum_sum_list uint_rows_mod)
  have a: "gross_sum s = reference_sum work" if "static_complete work n sched es s"
    using that static_correct(1)[OF _ _ n] unfolding static_complete_def by blast
  have b: "gross_sum s' = reference_sum work" if "dynamic_complete work n sched' es' s'"
    using that dyn_correct(1)[OF _ _ n(1)] unfolding dynamic_complete_def by blast
  from a b e show ?thesis
    using static_complete_ex[OF n] dynamic_complete_ex by metis
qed

theorem gross_sum_is_reference_sum_witness:
  "(\<exists>ev st. static_complete (\<lambda>i j. word_of_int (i + int j)) 4 (sequential_static 4) ev st \<and>
       uint (gross_sum st) = 54900000) \<and>
   (\<exists>ev st. dynamic_complete (\<lambda>i j. word_of_int (i + int j)) 4 (sequential_dynamic 4) ev st \<and>
       uint (gross_sum st) = 54900000)"
proof -
  let ?w = "(\<lambda>i j. word_of_int (i + int j)) :: matrix"
  have n: "(4::nat) \<in> {1, 2, 4, 8}" by simp
  have m: "(0::nat) < 4" "int 4 + int rows \<le> 2 ^ 31" by (simp_all add: rows_def)
  from sequential_static_complete[OF m, of ?w] obtain ev st where
    a: "static_complete ?w 4 (sequential_static 4) ev st" by blast
  from sequential_dynamic_complete[OF m(1), of ?w] obtain ev' st' where
    b: "dynamic_complete ?w 4 (sequential_dynamic 4) ev' st'" by blast
  from gross_sum_is_reference_sum[OF n, of ?w "sequential_static 4" ev st
      "sequential_dynamic 4" ev' st'] a b
  have "uint (gross_sum st) = sum_list (map (row_exact ?w) (map int [0..<rows])) mod 2 ^ 64"
    and "uint (gross_sum st') = sum_list (map (row_exact ?w) (map int [0..<rows])) mod 2 ^ 64"
    by blast+
  then have "uint (gross_sum st) = 54900000" "uint (gross_sum st') = 54900000"
    unfolding matrix_exact_example by simp_all
  with a b show ?thesis by blast
qed

text \<open>
  A worker count of zero is not excluded by \<^verbatim>\<open>main\<close> (\<open>-t 0\<close> gives it): then no
  thread is started, the run is complete at once, and both totals are 0. The properties
  below that speak of a worker count are therefore stated for at least one worker.
\<close>

lemma no_workers:
  "static_complete work 0 [] [] (static_init 0) \<and> total_work 0 (static_init 0) = 0 \<and>
   gross_sum (static_init 0) = 0 \<and>
   dynamic_complete work 0 [] [] (dynamic_init 0) \<and> total_work 0 (dynamic_init 0) = 0 \<and>
   gross_sum (dynamic_init 0) = 0"
  by (simp add: static_complete_def static_run_def static_done_def static_init_def
        dynamic_complete_def dynamic_run_def dynamic_done_def dynamic_init_def
        total_work_def gross_sum_def)

text \<open>
  C5. For a worker count of at least one (and, for the static workers, small enough that
  \<^verbatim>\<open>i += num_threads\<close> stays inside \<^verbatim>\<open>int\<close>), in both modes and whatever the
  interleaving, \<open>total_work\<close> is exactly \<open>rows\<close> once every worker has returned.
\<close>

theorem total_work_is_rows:
  assumes "0 < n"
  shows "(int n + int rows \<le> 2 ^ 31 \<and> static_complete work n sched es s \<longrightarrow>
            total_work n s = int rows) \<and>
         (dynamic_complete work n sched' es' s' \<longrightarrow> total_work n s' = int rows) \<and>
         (int n + int rows \<le> 2 ^ 31 \<longrightarrow> (\<exists>sc ev st. static_complete work n sc ev st)) \<and>
         (\<exists>sc ev st. dynamic_complete work n sc ev st)"
proof -
  have "total_work n s = int rows"
    if "int n + int rows \<le> 2 ^ 31" "static_complete work n sched es s"
    using that static_correct(2)[OF _ _ assms] unfolding static_complete_def by blast
  moreover have "total_work n s' = int rows" if "dynamic_complete work n sched' es' s'"
    using that dyn_correct(2)[OF _ _ assms] unfolding dynamic_complete_def by blast
  ultimately show ?thesis
    using static_complete_ex[OF assms] dynamic_complete_ex by blast
qed

theorem total_work_is_rows_witness:
  "(\<exists>ev st. static_complete (\<lambda>i j. 1) 2 (sequential_static 2) ev st \<and> total_work 2 st = 1000) \<and>
   (\<exists>ev st. dynamic_complete (\<lambda>i j. 1) 2 (sequential_dynamic 2) ev st \<and> total_work 2 st = 1000)"
proof -
  let ?w = "(\<lambda>i j. 1) :: matrix"
  have n: "(0::nat) < 2" by simp
  have b: "int 2 + int rows \<le> 2 ^ 31" by (simp add: rows_def)
  from sequential_static_complete[OF n b, of ?w] obtain ev st where
    a: "static_complete ?w 2 (sequential_static 2) ev st" by blast
  from sequential_dynamic_complete[OF n, of ?w] obtain ev' st' where
    d: "dynamic_complete ?w 2 (sequential_dynamic 2) ev' st'" by blast
  from total_work_is_rows[OF n, of ?w "sequential_static 2" ev st "sequential_dynamic 2" ev' st']
    a b d
  have "total_work 2 st = 1000" "total_work 2 st' = 1000" by (simp_all add: rows_def)
  with a d show ?thesis by blast
qed

lemma mset_range_rows:
  assumes "mset xs = mset (map int [0..<rows])"
  shows "distinct xs \<and> set xs = int ` {0..<rows}"
proof -
  have "distinct (map int [0..<rows])" by (simp add: distinct_map)
  with assms have "distinct xs" by (metis mset_eq_imp_distinct_iff)
  moreover have "set xs = set (map int [0..<rows])" using assms by (rule mset_eq_setD)
  ultimately show ?thesis by simp
qed

text \<open>
  C2. For a worker count of at least one, in both modes and whatever the interleaving,
  the rows summed by all workers together, listed in the order they were summed, have no
  duplicate and are exactly \<open>0, ..., rows - 1\<close> once every worker has returned: each
  row is summed once, by one worker. In dynamic mode the shared counter is never
  negative, in any state any schedule reaches.
\<close>

theorem every_row_exactly_once:
  assumes "0 < n"
  shows "(int n + int rows \<le> 2 ^ 31 \<and> static_complete work n sched es s \<longrightarrow>
            distinct (map snd (summed es)) \<and> set (map snd (summed es)) = int ` {0..<rows}) \<and>
         (dynamic_complete work n sched' es' s' \<longrightarrow>
            distinct (map snd (summed es')) \<and> set (map snd (summed es')) = int ` {0..<rows}) \<and>
         (dynamic_run work n sched'' = Some (es'', s'') \<longrightarrow> 0 \<le> counter s'')"
proof -
  have "distinct (map snd (summed es)) \<and> set (map snd (summed es)) = int ` {0..<rows}"
    if "int n + int rows \<le> 2 ^ 31" "static_complete work n sched es s"
    using that static_complete_mset(3)[OF _ _ assms, THEN mset_range_rows]
    unfolding static_complete_def by blast
  moreover have "distinct (map snd (summed es')) \<and> set (map snd (summed es')) = int ` {0..<rows}"
    if "dynamic_complete work n sched' es' s'"
    using that dyn_complete_rows[OF _ _ assms, THEN mset_range_rows]
    unfolding dynamic_complete_def by blast
  moreover have "0 \<le> counter s''" if "dynamic_run work n sched'' = Some (es'', s'')"
    using dyn_ended_run[OF that] by simp
  ultimately show ?thesis by blast
qed

lemma first_claim: "dynamic_run work 2 [1] = Some ([Claimed 1 999], (dynamic_init 2)\<lparr>counter := 999, dlocs := [DLock, DRow 999]\<rparr>)"
  by (simp add: dynamic_run_def sum_dynamic_def dynamic_init_def claim_def rows_def numeral_2_eq_2)

theorem every_row_exactly_once_witness:
  "(\<exists>ev st. static_complete (\<lambda>i j. 1) 2 (sequential_static 2) ev st \<and>
       distinct (map snd (summed ev)) \<and> set (map snd (summed ev)) = int ` {0..<rows}) \<and>
   (\<exists>ev st. dynamic_complete (\<lambda>i j. 1) 2 (sequential_dynamic 2) ev st \<and>
       distinct (map snd (summed ev)) \<and> set (map snd (summed ev)) = int ` {0..<rows}) \<and>
   (\<exists>ev st. dynamic_run (\<lambda>i j. 1) 2 [1] = Some (ev, st) \<and> 0 \<le> counter st)"
proof -
  let ?w = "(\<lambda>i j. 1) :: matrix"
  have n: "(0::nat) < 2" by simp
  have b: "int 2 + int rows \<le> 2 ^ 31" by (simp add: rows_def)
  from sequential_static_complete[OF n b, of ?w] obtain ev st where
    a: "static_complete ?w 2 (sequential_static 2) ev st" by blast
  from sequential_dynamic_complete[OF n, of ?w] obtain ev' st' where
    d: "dynamic_complete ?w 2 (sequential_dynamic 2) ev' st'" by blast
  note r = first_claim[of ?w]
  from every_row_exactly_once[OF n, of ?w "sequential_static 2" ev st
      "sequential_dynamic 2" ev' st' "[1]" _ _] a b d r
  show ?thesis by blast
qed

lemma dyn_end_logged:
  assumes "dynamic_run work n sched = Some (es, s)"
  shows "\<forall>u < length (dlocs s). dlocs s ! u = DEnd \<longrightarrow> Exhausted u \<in> set es"
  using assms unfolding dynamic_run_def
proof (induction rule: exec_induct)
  case init
  show ?case by (simp add: dynamic_init_def)
next
  case (step es s t e s')
  from step(2) step(1) show ?case
    by (cases rule: sum_dynamic_cases)
       (auto simp: account_row_def nth_list_update split: if_splits)
qed

lemma claim_positive: "0 < c \<Longrightarrow> claim c = (c - 1, False, c - 1)"
  by (simp add: claim_def)

lemma claim_zero: "claim 0 = (0, True, 0)"
  by (simp add: claim_def)

text \<open>
  C3. The critical section on its own: from a counter \<open>c > 0\<close> it leaves \<open>c - 1\<close> in the
  counter and hands \<open>c - 1\<close> to the worker with \<open>done\<close> false; from \<open>0\<close> it leaves the
  counter alone and sets \<open>done\<close>. Inside a worker: a thread at the lock takes row
  \<open>counter - 1\<close> when the counter is positive, and returns when it is zero; a thread that
  has returned never steps again, so in any run no event of a thread follows the event
  of its finding the counter exhausted.
\<close>

theorem claim_next_row:
  "(0 < c \<longrightarrow> claim c = (c - 1, False, c - 1)) \<and>
   claim 0 = (0, True, 0) \<and>
   (tid < length (dlocs s) \<and> dlocs s ! tid = DLock \<and> 0 < counter s \<longrightarrow>
      sum_dynamic work tid s =
        Some (Claimed tid (counter s - 1),
              s\<lparr>counter := counter s - 1, dlocs := (dlocs s)[tid := DRow (counter s - 1)]\<rparr>)) \<and>
   (tid < length (dlocs s) \<and> dlocs s ! tid = DLock \<and> counter s = 0 \<longrightarrow>
      sum_dynamic work tid s = Some (Exhausted tid, s\<lparr>dlocs := (dlocs s)[tid := DEnd]\<rparr>)) \<and>
   (dlocs s ! tid = DEnd \<longrightarrow> sum_dynamic work tid s = None) \<and>
   (dynamic_run work n sched = Some (es, s') \<and> es = a @ Exhausted tid # b \<longrightarrow>
      (\<forall>e\<in>set b. thread_of e \<noteq> tid))"
proof -
  have "sum_dynamic work tid s =
        Some (Claimed tid (counter s - 1),
              s\<lparr>counter := counter s - 1, dlocs := (dlocs s)[tid := DRow (counter s - 1)]\<rparr>)"
    if "tid < length (dlocs s)" "dlocs s ! tid = DLock" "0 < counter s"
    using that by (simp add: sum_dynamic_def claim_positive)
  moreover have "sum_dynamic work tid s = Some (Exhausted tid, s\<lparr>dlocs := (dlocs s)[tid := DEnd]\<rparr>)"
    if "tid < length (dlocs s)" "dlocs s ! tid = DLock" "counter s = 0"
    using that by (simp add: sum_dynamic_def claim_zero)
  moreover have "sum_dynamic work tid s = None" if "dlocs s ! tid = DEnd"
    using that by (simp add: sum_dynamic_def)
  moreover have "\<forall>e\<in>set b. thread_of e \<noteq> tid"
    if "dynamic_run work n sched = Some (es, s')" "es = a @ Exhausted tid # b"
    using dyn_exhausted_run[OF that(1)] that(2) by blast
  ultimately show ?thesis using claim_positive[of c] claim_zero by blast
qed

theorem claim_next_row_witness:
  "claim 5 = (4, False, 4) \<and>
   sum_dynamic (\<lambda>i j. 1) 1 (dynamic_init 2) =
     Some (Claimed 1 999, (dynamic_init 2)\<lparr>counter := 999, dlocs := [DLock, DRow 999]\<rparr>) \<and>
   sum_dynamic (\<lambda>i j. 1) 1 ((dynamic_init 2)\<lparr>counter := 0\<rparr>) =
     Some (Exhausted 1, (dynamic_init 2)\<lparr>counter := 0, dlocs := [DLock, DEnd]\<rparr>) \<and>
   sum_dynamic (\<lambda>i j. 1) 1 ((dynamic_init 2)\<lparr>counter := 0, dlocs := [DLock, DEnd]\<rparr>) = None \<and>
   (\<exists>es s a b. dynamic_run (\<lambda>i j. 1) 2 (sequential_dynamic 2) = Some (es, s) \<and>
      es = a @ Exhausted 1 # b \<and> list_all (\<lambda>e. thread_of e \<noteq> 1) b)"
proof -
  let ?w = "(\<lambda>i j. 1) :: matrix"
  let ?s0 = "dynamic_init 2"
  have i: "dlocs ?s0 = [DLock, DLock]" "counter ?s0 = 1000"
    by (simp_all add: dynamic_init_def rows_def numeral_2_eq_2)
  have 1: "claim 5 = (4, False, 4)"
    using claim_next_row[of 5] by simp
  have 2: "sum_dynamic ?w 1 ?s0 =
     Some (Claimed 1 999, ?s0\<lparr>counter := 999, dlocs := [DLock, DRow 999]\<rparr>)"
    using claim_next_row[of _ 1 ?s0 ?w] i by simp
  have 3: "sum_dynamic ?w 1 (?s0\<lparr>counter := 0\<rparr>) =
     Some (Exhausted 1, ?s0\<lparr>counter := 0, dlocs := [DLock, DEnd]\<rparr>)"
    using claim_next_row[of _ 1 "?s0\<lparr>counter := 0\<rparr>" ?w] i by simp
  have 4: "sum_dynamic ?w 1 (?s0\<lparr>counter := 0, dlocs := [DLock, DEnd]\<rparr>) = None"
    using claim_next_row[of _ 1 "?s0\<lparr>counter := 0, dlocs := [DLock, DEnd]\<rparr>" ?w] by simp
  from sequential_dynamic_complete[of 2 ?w] obtain es s where
    r: "dynamic_run ?w 2 (sequential_dynamic 2) = Some (es, s)" and f: "dynamic_done s"
    by (auto simp: dynamic_complete_def)
  from dyn_shape_run[OF r] f have "1 < length (dlocs s)" "dlocs s ! 1 = DEnd"
    by (simp_all add: dyn_shape_def dynamic_done_def list_all_length)
  with dyn_end_logged[OF r] have "Exhausted 1 \<in> set es" by blast
  then obtain a b where ab: "es = a @ Exhausted 1 # b" by (auto dest: split_list)
  from claim_next_row[where work = ?w and n = 2 and sched = "sequential_dynamic 2" and es = es
      and s' = s and a = a and tid = 1 and b = b] r ab
  have "\<forall>e\<in>set b. thread_of e \<noteq> 1" by blast
  then have "list_all (\<lambda>e. thread_of e \<noteq> 1) b" by (simp add: list_all_iff)
  with r ab have 5: "\<exists>es s a b. dynamic_run ?w 2 (sequential_dynamic 2) = Some (es, s) \<and>
      es = a @ Exhausted 1 # b \<and> list_all (\<lambda>e. thread_of e \<noteq> 1) b" by blast
  from 1 2 3 4 5 show ?thesis by blast
qed

text \<open>
  C9. In any run of the dynamic workers, the rows handed out, in the order in which the
  lock was taken, are \<open>rows - 1, rows - 2, ...\<close>: the \<open>k\<close>-th row handed out is
  \<open>rows - k\<close>, the sequence is strictly decreasing and never longer than \<open>rows\<close>; once
  every worker has returned it is exactly \<open>rows - 1, ..., 0\<close>.
\<close>

theorem claims_count_down:
  assumes "dynamic_run work n sched = Some (es, s)"
  shows "(\<forall>k. 1 \<le> k \<and> k \<le> length (claimed es) \<longrightarrow>
            snd (claimed es ! (k - 1)) = int rows - int k) \<and>
         sorted_wrt (>) (map snd (claimed es)) \<and>
         length (claimed es) \<le> rows \<and>
         (0 < n \<and> dynamic_done s \<longrightarrow> map snd (claimed es) = rev (map int [0..<rows]))"
proof -
  from dyn_counter_run[OF assms]
  have c: "0 \<le> counter s" "counter s = int rows - int (length (claimed es))"
    and m: "map snd (claimed es) = map (\<lambda>k. int rows - 1 - int k) [0..<length (claimed es)]"
    by (simp_all add: dyn_counter_def)
  have "snd (claimed es ! (k - 1)) = int rows - int k" if "1 \<le> k" "k \<le> length (claimed es)" for k
  proof -
    from that have k: "k - 1 < length (claimed es)" by simp
    then have "snd (claimed es ! (k - 1)) = map snd (claimed es) ! (k - 1)" by simp
    also have "\<dots> = int rows - 1 - int (k - 1)" using k by (subst m) simp
    finally show ?thesis using that by simp
  qed
  moreover have "sorted_wrt (>) (map snd (claimed es))"
    by (subst m) (rule countdown_decreasing)
  moreover have "length (claimed es) \<le> rows" using c by simp
  moreover have "map snd (claimed es) = rev (map int [0..<rows])" if "0 < n" "dynamic_done s"
    using dyn_complete(2)[OF assms that(2) that(1)] .
  ultimately show ?thesis by blast
qed

theorem claims_count_down_witness:
  "(\<exists>es s. dynamic_run (\<lambda>i j. 1) 2 [1] = Some (es, s) \<and> snd (claimed es ! 0) = 999) \<and>
   (\<exists>es s. dynamic_run (\<lambda>i j. 1) 2 (sequential_dynamic 2) = Some (es, s) \<and> dynamic_done s \<and>
      map snd (claimed es) = rev (map int [0..<rows]))"
proof -
  let ?w = "(\<lambda>i j. 1) :: matrix"
  note r = first_claim[of ?w]
  from claims_count_down[OF r] have "snd (claimed [Claimed 1 999] ! (1 - 1)) = int rows - int 1"
    by (simp add: rows_def)
  then have 1: "\<exists>es s. dynamic_run ?w 2 [1] = Some (es, s) \<and> snd (claimed es ! 0) = 999"
    using r by (simp add: rows_def)
  from sequential_dynamic_complete[of 2 ?w] obtain es s where
    c: "dynamic_run ?w 2 (sequential_dynamic 2) = Some (es, s)" and f: "dynamic_done s"
    by (auto simp: dynamic_complete_def)
  from claims_count_down[OF c] f have "map snd (claimed es) = rev (map int [0..<rows])" by simp
  with c f have 2: "\<exists>es s. dynamic_run ?w 2 (sequential_dynamic 2) = Some (es, s) \<and>
      dynamic_done s \<and> map snd (claimed es) = rev (map int [0..<rows])" by blast
  from 1 2 show ?thesis ..
qed

lemma static_first_step:
  assumes "t < n" "int t < int rows"
  shows "\<exists>e s. static_run work n [t] = Some ([e], s)"
  using assms by (simp add: static_run_def sum_static_def static_init_def)

lemma static_count_four: "tid < 4 \<Longrightarrow> static_count 4 tid = 250"
  by (simp add: static_count_def rows_def)

text \<open>
  C4. In static mode, for a thread id below the worker count, the rows a worker sums,
  in order, are \<open>tid, tid + n, tid + 2n, ...\<close>: at any moment a prefix of
  \<open>static_rows n tid\<close>, and all of it once the worker has returned. That list is a
  function of \<open>tid\<close> and \<open>n\<close> alone; each of its entries is below \<open>rows\<close> and the
  entry that would follow is not. With 4 workers each worker sums 250 rows, worker
  \<open>tid\<close> the rows \<open>tid, tid + 4, ..., tid + 996\<close>.
\<close>

theorem static_rows_of_worker:
  assumes "0 < n" and "int n + int rows \<le> 2 ^ 31" and "tid < n"
  shows "(static_complete work n sched es s \<longrightarrow> rows_of tid (summed es) = static_rows n tid) \<and>
         (static_run work n sched' = Some (es', s') \<longrightarrow>
            (\<exists>k. rows_of tid (summed es') = take k (static_rows n tid))) \<and>
         static_rows n tid = map (\<lambda>j. int tid + int j * int n) [0..<static_count n tid] \<and>
         (\<forall>r\<in>set (static_rows n tid). 0 \<le> r \<and> r < int rows) \<and>
         int rows \<le> int tid + int (static_count n tid) * int n \<and>
         (n = 4 \<longrightarrow> static_rows n tid = map (\<lambda>j. int tid + int j * 4) [0..<250])"
proof -
  have "rows_of tid (summed es) = static_rows n tid" if "static_complete work n sched es s"
    using that static_complete_rows[OF _ _ assms] unfolding static_complete_def by blast
  moreover have "\<exists>k. rows_of tid (summed es') = take k (static_rows n tid)"
    if "static_run work n sched' = Some (es', s')"
    using static_prefix[OF that assms] .
  moreover have "\<forall>r\<in>set (static_rows n tid). 0 \<le> r \<and> r < int rows"
    using static_rows_bounds[OF assms(1,3)] by blast
  moreover have "static_rows n tid = map (\<lambda>j. int tid + int j * 4) [0..<250]" if "n = 4"
    using that assms(3) by (simp add: static_rows_def static_count_four)
  ultimately show ?thesis
    using static_count_next[OF assms(1,3)] by (simp add: static_rows_def)
qed

theorem static_rows_of_worker_witness:
  "(\<exists>es s. static_complete (\<lambda>i j. 1) 4 (sequential_static 4) es s \<and>
      rows_of 0 (summed es) = map (\<lambda>j. 4 * int j) [0..<250] \<and>
      length (rows_of 0 (summed es)) = 250 \<and>
      rows_of 0 (summed es) ! 249 = 996) \<and>
   static_rows 4 1 = map (\<lambda>j. 1 + int j * 4) [0..<250] \<and>
   (\<exists>e s k. static_run (\<lambda>i j. 1) 4 [1] = Some ([e], s) \<and>
      rows_of 1 (summed [e]) = take k (static_rows 4 1))"
proof -
  let ?w = "(\<lambda>i j. 1) :: matrix"
  have n: "(0::nat) < 4" "int 4 + int rows \<le> 2 ^ 31" by (simp_all add: rows_def)
  from sequential_static_complete[OF n, of ?w] obtain es s where
    c: "static_complete ?w 4 (sequential_static 4) es s" by blast
  have t: "(0::nat) < 4" by simp
  from static_rows_of_worker[OF n t, of ?w "sequential_static 4" es s] c
  have "rows_of 0 (summed es) = static_rows 4 0"
    and "static_rows 4 0 = map (\<lambda>j. int (0::nat) + int j * 4) [0..<250]" by blast+
  then have r: "rows_of 0 (summed es) = map (\<lambda>j. 4 * int j) [0..<250]"
    by (simp add: mult.commute)
  have x: "rows_of 0 (summed es) ! 249 = 996" by (simp add: r)
  have l: "length (rows_of 0 (summed es)) = 250" by (simp add: r)
  from c r l x have 1: "\<exists>es s. static_complete ?w 4 (sequential_static 4) es s \<and>
      rows_of 0 (summed es) = map (\<lambda>j. 4 * int j) [0..<250] \<and>
      length (rows_of 0 (summed es)) = 250 \<and> rows_of 0 (summed es) ! 249 = 996"
    by blast
  have t1: "(1::nat) < 4" by simp
  from static_rows_of_worker[OF n t1, of ?w]
  have "static_rows 4 1 = map (\<lambda>j. int (1::nat) + int j * 4) [0..<250]" by blast
  then have 2: "static_rows 4 1 = map (\<lambda>j. 1 + int j * 4) [0..<250]" by simp
  from static_first_step[of 1 4 ?w] obtain e1 s1 where
    p: "static_run ?w 4 [1] = Some ([e1], s1)" by (auto simp: rows_def)
  from static_rows_of_worker[OF n t1, of ?w _ _ _ "[1]" "[e1]" s1] p
  have "\<exists>k. rows_of 1 (summed [e1]) = take k (static_rows 4 1)" by blast
  with p have 3: "\<exists>e s k. static_run ?w 4 [1] = Some ([e], s) \<and>
      rows_of 1 (summed [e]) = take k (static_rows 4 1)" by blast
  from 1 2 3 show ?thesis by blast
qed

text \<open>
  C8. Static mode is deterministic: for a worker count and a matrix, any two runs that
  have ended, whatever their interleavings, leave the same \<open>tcount\<close> and \<open>sum\<close> vectors.
  Slot \<open>t\<close> holds the number of rows of \<open>static_rows n t\<close> and what one thread alone
  gets by adding those rows in order from zero.
\<close>

theorem static_mode_deterministic:
  assumes "0 < n" and "int n + int rows \<le> 2 ^ 31"
    and "static_complete work n sched1 es1 s1" and "static_complete work n sched2 es2 s2"
  shows "tcount s1 = tcount s2 \<and> sum_vec s1 = sum_vec s2 \<and>
         tcount s1 = map (\<lambda>t. int (static_count n t)) [0..<n] \<and>
         sum_vec s1 = map (\<lambda>t. fold (sum_row work) (static_rows n t) 0) [0..<n]"
proof -
  from assms(3) have r1: "static_run work n sched1 = Some (es1, s1)" and f1: "static_done s1"
    by (simp_all add: static_complete_def)
  from assms(4) have r2: "static_run work n sched2 = Some (es2, s2)" and f2: "static_done s2"
    by (simp_all add: static_complete_def)
  from static_slots[OF r1 f1 assms(1,2)] static_slots[OF r2 f2 assms(1,2)]
  show ?thesis by simp
qed

theorem static_mode_deterministic_witness:
  "sequential_static 2 = replicate 501 0 @ replicate 501 1 \<and>
   (\<exists>m2 es1 s1 es2 s2.
      static_complete (\<lambda>i j. 1) 2 (sequential_static 2) es1 s1 \<and>
      static_complete (\<lambda>i j. 1) 2 (1 # m2) es2 s2 \<and>
      tcount s1 = tcount s2 \<and> sum_vec s1 = sum_vec s2 \<and> tcount s1 = [500, 500])"
proof -
  let ?w = "(\<lambda>i j. 1) :: matrix"
  have n: "(0::nat) < 2" "int 2 + int rows \<le> 2 ^ 31" by (simp_all add: rows_def)
  from static_first_step[of 1 2 ?w] obtain e2 t2 where
    p2: "static_run ?w 2 [1] = Some ([e2], t2)" by (auto simp: rows_def)
  from sequential_static_complete[OF n, of ?w] obtain es1 s1 where
    c1: "static_complete ?w 2 (sequential_static 2) es1 s1" by blast
  from static_extend[OF p2 n] obtain m2 es2 s2 where
    c2: "static_complete ?w 2 (1 # m2) es2 s2" by (auto simp: static_complete_def)
  have "[0..<2] = [0, 1]" by (simp add: upt_rec)
  then have cnt: "map (\<lambda>t. int (static_count 2 t)) [0..<2] = [500, 500]"
    by (simp add: static_count_def rows_def)
  from static_mode_deterministic[OF n c1 c2]
  have a: "tcount s1 = tcount s2" and b: "sum_vec s1 = sum_vec s2"
    and d: "tcount s1 = map (\<lambda>t. int (static_count 2 t)) [0..<2]" by blast+
  from d have e: "tcount s1 = [500, 500]" unfolding cnt .
  from c1 c2 a b e sequential_static_two show ?thesis by blast
qed

lemma fill_work_nonneg: "\<forall>k. 0 \<le> sint (rnd k) \<Longrightarrow> \<forall>i j. 0 \<le> sint (fill_work rnd i j)"
  by (simp add: fill_work_def)

lemma slot_exact:
  assumes nonneg: "\<forall>i j. 0 \<le> sint (work i j)" and sl: "slots_ok work es tb"
    and t: "t < length (tcount tb)" and len: "length (summed es) \<le> rows"
  shows "uint (sum_vec tb ! t) = sum_list (map (row_exact work) (rows_of t (summed es))) \<and>
         sum_list (map (row_exact work) (rows_of t (summed es))) < 2 ^ 48"
proof -
  have "length (rows_of t (summed es)) \<le> rows"
    using rows_of_length[of t "summed es"] len by simp
  from exact_sum[OF nonneg this] sl t show ?thesis by (simp add: slots_ok_def)
qed

lemma gross_exact:
  assumes nonneg: "\<forall>i j. 0 \<le> sint (work i j)" and g: "gross_sum tb = reference_sum work"
  shows "uint (gross_sum tb) = sum_list (map (row_exact work) (map int [0..<rows])) \<and>
         sum_list (map (row_exact work) (map int [0..<rows])) < 2 ^ 48"
proof -
  have "length (map int [0..<rows]) \<le> rows" by simp
  from exact_sum[OF nonneg this] g show ?thesis by (simp only: reference_sum_sum_list)
qed

text \<open>
  C10. \<^verbatim>\<open>rand()\<close> returns a value between 0 and \<^verbatim>\<open>RAND_MAX\<close>, so every element of the
  matrix \<^verbatim>\<open>main\<close> fills is a non-negative \<^verbatim>\<open>int\<close>, below \<open>2 ^ 31\<close>. Then no 64-bit
  addition of a run wraps: in both modes, in every state any schedule reaches, each
  worker's sum read as an unsigned number is the sum over the integers of the rows it has
  summed, and once every worker has returned the gross sum is the sum over the integers
  of all \<open>rows * cols\<close> elements; both stay below \<open>2 ^ 48\<close>.
\<close>

theorem sums_do_not_wrap:
  assumes "\<forall>k. 0 \<le> sint (rnd k)" and "0 < n" and "t < n"
  shows "(int n + int rows \<le> 2 ^ 31 \<and> static_run (fill_work rnd) n sched = Some (es, s) \<longrightarrow>
            uint (sum_vec s ! t) =
              sum_list (map (row_exact (fill_work rnd)) (rows_of t (summed es))) \<and>
            sum_list (map (row_exact (fill_work rnd)) (rows_of t (summed es))) < 2 ^ 48) \<and>
         (dynamic_run (fill_work rnd) n sched' = Some (es', s') \<longrightarrow>
            uint (sum_vec s' ! t) =
              sum_list (map (row_exact (fill_work rnd)) (rows_of t (summed es'))) \<and>
            sum_list (map (row_exact (fill_work rnd)) (rows_of t (summed es'))) < 2 ^ 48) \<and>
         (int n + int rows \<le> 2 ^ 31 \<and> static_complete (fill_work rnd) n sched es s \<longrightarrow>
            uint (gross_sum s) = sum_list (map (row_exact (fill_work rnd)) (map int [0..<rows]))) \<and>
         (dynamic_complete (fill_work rnd) n sched' es' s' \<longrightarrow>
            uint (gross_sum s') = sum_list (map (row_exact (fill_work rnd)) (map int [0..<rows]))) \<and>
         sum_list (map (row_exact (fill_work rnd)) (map int [0..<rows])) < 2 ^ 48"
proof -
  let ?w = "fill_work rnd"
  from fill_work_nonneg[OF assms(1)] have nonneg: "\<forall>i j. 0 \<le> sint (?w i j)" .
  have a: "uint (sum_vec s ! t) = sum_list (map (row_exact ?w) (rows_of t (summed es))) \<and>
           sum_list (map (row_exact ?w) (rows_of t (summed es))) < 2 ^ 48"
    if b: "int n + int rows \<le> 2 ^ 31" and r: "static_run ?w n sched = Some (es, s)"
  proof -
    from static_tables_run[OF r] have "slots_ok ?w es s" "t < length (tcount s)"
      using assms(3) by (simp_all add: static_shape_def)
    from slot_exact[OF nonneg this static_partial(3)[OF r assms(2) b]] show ?thesis .
  qed
  have b: "uint (sum_vec s' ! t) = sum_list (map (row_exact ?w) (rows_of t (summed es'))) \<and>
           sum_list (map (row_exact ?w) (rows_of t (summed es'))) < 2 ^ 48"
    if r: "dynamic_run ?w n sched' = Some (es', s')"
  proof -
    from dyn_tables_run[OF r] have "slots_ok ?w es' s'" "t < length (tcount s')"
      using assms(3) by (simp_all add: dyn_shape_def)
    from slot_exact[OF nonneg this dyn_partial[OF r]] show ?thesis .
  qed
  have c: "uint (gross_sum s) = sum_list (map (row_exact ?w) (map int [0..<rows]))"
    if "int n + int rows \<le> 2 ^ 31" "static_complete ?w n sched es s"
  proof -
    from that have "gross_sum s = reference_sum ?w"
      using static_correct(1)[OF _ _ assms(2)] unfolding static_complete_def by blast
    from gross_exact[OF nonneg this] show ?thesis by simp
  qed
  have d: "uint (gross_sum s') = sum_list (map (row_exact ?w) (map int [0..<rows]))"
    if "dynamic_complete ?w n sched' es' s'"
  proof -
    from that have "gross_sum s' = reference_sum ?w"
      using dyn_correct(1)[OF _ _ assms(2)] unfolding dynamic_complete_def by blast
    from gross_exact[OF nonneg this] show ?thesis by simp
  qed
  have "length (map int [0..<rows]) \<le> rows" by simp
  from exact_sum(2)[OF nonneg this] a b c d show ?thesis by blast
qed

lemma exact_sevens:
  "sum_list (map (row_exact (fill_work (\<lambda>k. 7))) (map int [0..<rows])) = 700000"
proof -
  have "row_exact (fill_work (\<lambda>k. 7)) i = 700" for i
    by (simp add: row_exact_def fill_work_def sum_list_triv cols_def)
  then show ?thesis by (simp add: sum_list_triv rows_def comp_def)
qed

theorem sums_do_not_wrap_witness:
  "(\<exists>ev st. static_complete (fill_work (\<lambda>k. 7)) 4 (sequential_static 4) ev st \<and>
      uint (gross_sum st) = 700000 \<and>
      uint (sum_vec st ! 3) = sum_list (map (row_exact (fill_work (\<lambda>k. 7))) (rows_of 3 (summed ev)))) \<and>
   (\<exists>ev st. dynamic_complete (fill_work (\<lambda>k. 7)) 4 (sequential_dynamic 4) ev st \<and>
      uint (gross_sum st) = 700000 \<and>
      uint (sum_vec st ! 3) = sum_list (map (row_exact (fill_work (\<lambda>k. 7))) (rows_of 3 (summed ev))))"
proof -
  let ?r = "(\<lambda>k. 7) :: nat \<Rightarrow> 32 word"
  let ?w = "fill_work ?r"
  have h: "\<forall>k. 0 \<le> sint (?r k)" by simp
  have n: "(0::nat) < 4" "int 4 + int rows \<le> 2 ^ 31" by (simp_all add: rows_def)
  have t: "(3::nat) < 4" by simp
  let ?sc = "sequential_static 4" and ?sc' = "sequential_dynamic 4"
  from sequential_static_complete[OF n, of ?w] obtain ev st where
    a: "static_complete ?w 4 ?sc ev st" by blast
  from sequential_dynamic_complete[OF n(1), of ?w] obtain ev' st' where
    d: "dynamic_complete ?w 4 ?sc' ev' st'" by blast
  from d have r: "dynamic_run ?w 4 ?sc' = Some (ev', st')" by (simp add: dynamic_complete_def)
  from a have r': "static_run ?w 4 ?sc = Some (ev, st)" by (simp add: static_complete_def)
  from sums_do_not_wrap[OF h n(1) t, of ?sc ev st ?sc' ev' st'] a d r r' n(2)
  have "uint (gross_sum st) = sum_list (map (row_exact ?w) (map int [0..<rows]))"
    and "uint (gross_sum st') = sum_list (map (row_exact ?w) (map int [0..<rows]))"
    and "uint (sum_vec st' ! 3) = sum_list (map (row_exact ?w) (rows_of 3 (summed ev')))"
    and "uint (sum_vec st ! 3) = sum_list (map (row_exact ?w) (rows_of 3 (summed ev)))"
    by blast+
  with a d show ?thesis unfolding exact_sevens by blast
qed


lemma number_examples:
  "number_text ''4'' = 4" "number_text ''64'' = 64" "number_text ''-3'' = - 3"
  "number_text ''abc'' = 0" "number_text '' +7x'' = 7"
  "number_text ''4294967298'' = 4294967298" "number_text ''-4294967293'' = - 4294967293"
  "number_text ''9223372036854775808'' = 9223372036854775808"
  by (simp_all add: number_text_def is_space_def is_digit_def)

lemma atoi_examples:
  "atoi ''4'' = 4" "atoi ''64'' = 64" "atoi ''-3'' = - 3" "atoi ''abc'' = 0"
  "atoi ''4294967298'' = 2" "atoi ''-4294967293'' = 3" "atoi ''9223372036854775808'' = - 1"
  by (simp_all add: atoi_def strtol_def wrap_int_def number_examples)


text \<open>
  Numbers that do not fit an \<^verbatim>\<open>int\<close>, on a machine with 8 hardware threads:
  \<open>-t 4294967298\<close> gives 2 workers and \<open>-t -4294967293\<close> gives 3, since only the low 32
  bits are kept; \<open>-t 9223372036854775808\<close> is limited to \<^verbatim>\<open>LONG_MAX\<close>, whose low 32 bits
  are \<open>-1\<close>, and gives the ceiling.
\<close>

lemma numbers_beyond_int:
  "n_threads (parse_options 8 [Opt_t ''4294967298'']) = 2"
  "n_threads (parse_options 8 [Opt_t ''-4294967293'']) = 3"
  "n_threads (parse_options 8 [Opt_t ''9223372036854775808'']) = 8"
  by (simp_all add: parse_options_def atoi_examples)



text \<open>
  C7 fails on the program. An option that is not recognised sets \<open>dflag\<close> to \<open>-1\<close> and
  prints the usage text, but a \<open>-d\<close> later on the command line sets \<open>dflag\<close> back to 1:
  for \<^verbatim>\<open>reduce -x -d\<close> the usage text is printed and the dynamic workers run all the same
  (with the default of 2 threads). The status is 0.
\<close>

theorem unknown_option_then_d_still_runs:
  "main_control hw [Opt_unknown, Opt_d] =
     \<lparr>launched = Some (Dynamic, 2), errors = usage, status = 0\<rparr>"
  by (simp add: main_control_def parse_options_def)

lemma dflag_after_unknown:
  "\<forall>x\<in>set rest. x \<noteq> Opt_d \<Longrightarrow> dflag st = - 1 \<Longrightarrow> dflag (fold (option_case hw) rest st) = - 1"
proof (induction rest arbitrary: st)
  case Nil
  then show ?case by simp
next
  case (Cons x rest)
  then show ?case by (cases x) (simp_all add: Let_def)
qed

text \<open>
  What does hold: when no \<open>-d\<close> follows the last option that is not recognised, nothing
  is launched; the usage text is among the output on the error stream whenever such an
  option occurs; and the status is 0 for every command line.
\<close>

lemma unknown_option_last_aborts:
  assumes "\<forall>x\<in>set rest. x \<noteq> Opt_d"
  shows "launched (main_control hw (opts @ Opt_unknown # rest)) = None"
    and "set usage \<subseteq> set (errors (main_control hw (opts @ Opt_unknown # rest)))"
    and "status (main_control hw opts') = 0"
proof -
  let ?st = "fold (option_case hw) opts \<lparr>dflag = 0, n_threads = 2, cerr = []\<rparr>"
  have d: "dflag (fold (option_case hw) rest (option_case hw Opt_unknown ?st)) = - 1"
    using dflag_after_unknown[OF assms] by simp
  then show "launched (main_control hw (opts @ Opt_unknown # rest)) = None"
    by (simp add: main_control_def parse_options_def)
  have "set usage \<subseteq> set (cerr (fold (option_case hw) rest st))"
    if "set usage \<subseteq> set (cerr st)" for st
    using that
  proof (induction rest arbitrary: st)
    case Nil
    then show ?case by simp
  next
    case (Cons x rest)
    have "set usage \<subseteq> set (cerr (option_case hw x st))"
      using Cons.prems by (cases x) (auto simp: Let_def)
    then show ?case using Cons.IH by simp
  qed
  from this[of "option_case hw Opt_unknown ?st"]
  show "set usage \<subseteq> set (errors (main_control hw (opts @ Opt_unknown # rest)))"
    by (simp add: main_control_def parse_options_def Let_def)
  show "status (main_control hw opts') = 0"
    by (simp add: main_control_def Let_def)
qed

end
